theory Spec2Isabelle
  imports Main
begin

section \<open>Strings as Python uses them\<close>

type_synonym url = string

text \<open>\<^verbatim>\<open>s.startswith(p)\<close>, \<^verbatim>\<open>s.endswith(p)\<close> and the substring test \<^verbatim>\<open>p in s\<close>.\<close>

definition startswith :: "string \<Rightarrow> string \<Rightarrow> bool" where
  "startswith s p = (take (length p) s = p)"

definition endswith :: "string \<Rightarrow> string \<Rightarrow> bool" where
  "endswith s p = (length p \<le> length s \<and> drop (length s - length p) s = p)"

fun contains_str :: "string \<Rightarrow> string \<Rightarrow> bool" where
  "contains_str [] p = (p = [])"
| "contains_str (c # cs) p = (startswith (c # cs) p \<or> contains_str cs p)"

text \<open>
  A \<^typ>\<open>char\<close> stands for a code point below U+0100 (ASCII and Latin-1); text with
  other code points is outside this model. \<^verbatim>\<open>str.lower()\<close> maps the upper-case letters
  of that range, A to Z and U+00C0 to U+00DE without the multiplication sign U+00D7, to
  the code point 32 higher and leaves every other code point.
\<close>

definition upper_chars :: string where
  "upper_chars =
     ''ABCDEFGHIJKLMNOPQRSTUVWXYZ'' @
       [CHR 0xC0, CHR 0xC1, CHR 0xC2, CHR 0xC3, CHR 0xC4, CHR 0xC5, CHR 0xC6, CHR 0xC7,
        CHR 0xC8, CHR 0xC9, CHR 0xCA, CHR 0xCB, CHR 0xCC, CHR 0xCD, CHR 0xCE, CHR 0xCF,
        CHR 0xD0, CHR 0xD1, CHR 0xD2, CHR 0xD3, CHR 0xD4, CHR 0xD5, CHR 0xD6, CHR 0xD8,
        CHR 0xD9, CHR 0xDA, CHR 0xDB, CHR 0xDC, CHR 0xDD, CHR 0xDE]"

definition lower_chars :: string where
  "lower_chars =
     ''abcdefghijklmnopqrstuvwxyz'' @
       [CHR 0xE0, CHR 0xE1, CHR 0xE2, CHR 0xE3, CHR 0xE4, CHR 0xE5, CHR 0xE6, CHR 0xE7,
        CHR 0xE8, CHR 0xE9, CHR 0xEA, CHR 0xEB, CHR 0xEC, CHR 0xED, CHR 0xEE, CHR 0xEF,
        CHR 0xF0, CHR 0xF1, CHR 0xF2, CHR 0xF3, CHR 0xF4, CHR 0xF5, CHR 0xF6, CHR 0xF8,
        CHR 0xF9, CHR 0xFA, CHR 0xFB, CHR 0xFC, CHR 0xFD, CHR 0xFE]"

definition lower_char :: "char \<Rightarrow> char" where
  "lower_char c = (case map_of (zip upper_chars lower_chars) c of Some d \<Rightarrow> d | None \<Rightarrow> c)"

definition lower :: "string \<Rightarrow> string" where
  "lower s = map lower_char s"

text \<open>\<^verbatim>\<open>str.strip()\<close> drops leading and trailing whitespace: the code points for which
  \<^verbatim>\<open>str.isspace\<close> holds, which below U+0100 are U+0009 to U+000D, U+001C to U+001F, the
  space, U+0085 and the no-break space U+00A0. The regular expression class \<^verbatim>\<open>\s\<close> is the
  same set.\<close>

definition is_space :: "char \<Rightarrow> bool" where
  "is_space c =
     (c \<in> set [CHR 0x09, CHR 0x0A, CHR 0x0B, CHR 0x0C, CHR 0x0D,
                CHR 0x1C, CHR 0x1D, CHR 0x1E, CHR 0x1F, CHR '' '', CHR 0x85, CHR 0xA0])"

definition strip :: "string \<Rightarrow> string" where
  "strip s = rev (dropWhile is_space (rev (dropWhile is_space s)))"

text \<open>\<^verbatim>\<open>s.replace('\\/', '/')\<close>: every backslash followed by a slash loses the backslash,
  scanning from the left without overlaps.\<close>

fun unescape_slashes :: "string \<Rightarrow> string" where
  "unescape_slashes (a # b # cs) =
     (if a = CHR 0x5C \<and> b = CHR ''/'' then CHR ''/'' # unescape_slashes cs
      else a # unescape_slashes (b # cs))"
| "unescape_slashes cs = cs"

text \<open>The two characters that \<^verbatim>\<open>replace\<close> looks for: a backslash and a slash.\<close>

definition esc_slash :: string where
  "esc_slash = [CHR 0x5C, CHR ''/'']"

section \<open>Python's dict on pairs\<close>

text \<open>
  A \<^verbatim>\<open>dict\<close> keeps its keys in the order of their first insertion; storing under a key
  that is present replaces the value and keeps the key's place. \<^verbatim>\<open>dict(pairs)\<close> stores the
  pairs from left to right, the first component being the key; \<^verbatim>\<open>.items()\<close> lists the
  entries in key order.
\<close>

fun dict_set :: "('k \<times> 'v) list \<Rightarrow> 'k \<Rightarrow> 'v \<Rightarrow> ('k \<times> 'v) list" where
  "dict_set [] k v = [(k, v)]"
| "dict_set ((k', v') # d) k v =
     (if k' = k then (k, v) # d else (k', v') # dict_set d k v)"

definition dict_items :: "('k \<times> 'v) list \<Rightarrow> ('k \<times> 'v) list" where
  "dict_items ps = foldl (\<lambda>d (k, v). dict_set d k v) [] ps"

section \<open>The world outside the program\<close>

text \<open>
  An \<^verbatim>\<open>io.BytesIO\<close> is its content and a cursor. A parsed page is the list of its tags
  in document order, each with its name, its plain attributes, the tokens of its
  \<^verbatim>\<open>class\<close> and \<^verbatim>\<open>rel\<close> attributes and its \<^verbatim>\<open>.string\<close>.
\<close>

record bytesio =
  buf_content :: string
  buf_pos :: nat

record tag =
  tname :: string
  tattrs :: "(string \<times> string) list"
  tclass :: "string list"
  trel :: "string list"
  tstring :: "string option"

record response =
  status_ok :: bool
  body :: string
  soup :: "tag list"

text \<open>The four regular expressions of the embed resolver, in the order of its list:
  a quoted \<^verbatim>\<open>file:\<close> assignment, a \<^verbatim>\<open>source\<close> element's \<^verbatim>\<open>src\<close>, a \<^verbatim>\<open>fileURL\<close> field, and a
  bare URL ending in mp4, m3u8, mkv or webm.\<close>

datatype embed_pattern = FileAssign | SourceSrc | FileUrlField | BareMediaUrl

text \<open>The four regular expressions of the video-link extractor, in the order of its
  list: the player call \<^verbatim>\<open>htmlplayer.setVideoUrl\<close>, a \<^verbatim>\<open>video_url\<close> field, a quoted
  \<^verbatim>\<open>file:\<close> assignment, and a bare URL with mp4 or mpd in it.\<close>

datatype link_pattern = SetVideoUrl | VideoUrlField | FileAssignLink | BareVideoUrl

text \<open>What one call of the channel's send method does: it returns, raises
  \<^verbatim>\<open>RetryAfter\<close> with a cooldown, raises another \<^verbatim>\<open>TelegramError\<close>, or raises an
  exception that is no \<^verbatim>\<open>TelegramError\<close>.\<close>

datatype outcome = Delivered | RetryAfter nat | TelegramError | OtherException

text \<open>
  The libraries and the network are parameters:
  \<^item> \<open>http_get u referer\<close>: \<^verbatim>\<open>async_client.get\<close> with an optional Referer header;
    \<open>None\<close> when the request raises;
  \<^item> \<open>re_search p text\<close>: group 1 of \<^verbatim>\<open>re.search\<close> for pattern \<open>p\<close>, \<open>None\<close> without a match;
  \<^item> \<open>re_findall p text\<close>: the matches of \<^verbatim>\<open>re.findall\<close> for link pattern \<open>p\<close>, in order;
  \<^item> \<open>re_video_ref u\<close>: whether the regular expression for a name ending in mp4 or mpd,
    with an optional query string, is found in \<open>u\<close>;
  \<^item> \<open>url_origin u\<close>: scheme, \<^verbatim>\<open>://\<close> and network location of \<^verbatim>\<open>urlparse(u)\<close>;
  \<^item> \<open>urljoin base link\<close>: \<open>None\<close> when \<^verbatim>\<open>urllib.parse.urljoin\<close> raises \<^verbatim>\<open>ValueError\<close>;
  \<^item> \<open>urlpath u\<close>: \<^verbatim>\<open>urlparse(u).path\<close>;
  \<^item> \<open>to_jpeg\<close>: the Pillow conversion of a WebP image, \<open>None\<close> when it raises;
  \<^item> \<open>timestamp_name\<close>: the fallback file name built from \<^verbatim>\<open>time.time()\<close>;
  \<^item> \<open>cancel_flag chat n\<close>: \<^verbatim>\<open>cancellation_flags.get(chat)\<close> at the n-th read;
  \<^item> \<open>channel n\<close>: the outcome of the n-th call of a send method, and how far that
    call moved the cursors of the buffers it was given.
\<close>

record env =
  http_get :: "url \<Rightarrow> string option \<Rightarrow> response option"
  re_search :: "embed_pattern \<Rightarrow> string \<Rightarrow> string option"
  re_findall :: "link_pattern \<Rightarrow> string \<Rightarrow> string list"
  re_video_ref :: "string \<Rightarrow> bool"
  url_origin :: "url \<Rightarrow> string"
  urljoin :: "url \<Rightarrow> string \<Rightarrow> url option"
  urlpath :: "url \<Rightarrow> string"
  to_jpeg :: "string \<Rightarrow> string option"
  timestamp_name :: string
  cancel_flag :: "int \<Rightarrow> nat \<Rightarrow> bool"
  channel :: "nat \<Rightarrow> outcome \<times> nat"

section \<open>The program's state and what it does to the world\<close>

text \<open>A keyword argument's value is an \<^verbatim>\<open>io.BytesIO\<close> or something else; \<open>kw_media\<close>
  holds the \<^verbatim>\<open>.media\<close> of each item of the \<^verbatim>\<open>media\<close> list.\<close>

datatype payload = Buf bytesio | NotBuf string

record kwargs =
  kw_video :: "payload option"
  kw_animation :: "payload option"
  kw_thumbnail :: "payload option"
  kw_media :: "payload list option"
  kw_other :: "(string \<times> payload) list"

datatype status = Processing nat nat string | ScrapingComplete | Canceled | ErrorStatus

datatype event =
    PageFetch url
  | Download url "string option" bool
  | Send nat kwargs outcome
  | Sleep nat
  | Status status

text \<open>\<open>ledger\<close> is the global \<^verbatim>\<open>SENT_MEDIA_URLS\<close>; \<open>events\<close> is what the process has done so
  far, oldest first; \<open>polls\<close> and \<open>sends\<close> count the reads of the cancellation flag and the
  calls of a send method.\<close>

record world =
  ledger :: "url set"
  events :: "event list"
  polls :: nat
  sends :: nat

text \<open>The exceptions that leave a function: the \<^verbatim>\<open>asyncio.CancelledError\<close> raised at a
  cancellation check, and any other exception.\<close>

datatype exn = CancelledError | Failure

definition emit :: "event \<Rightarrow> world \<Rightarrow> world" where
  "emit ev w = w\<lparr>events := events w @ [ev]\<rparr>"

definition poll :: "world \<Rightarrow> world" where
  "poll w = w\<lparr>polls := Suc (polls w)\<rparr>"

section \<open>Delivery\<close>

definition download_media_as_bytes ::
  "env \<Rightarrow> url \<Rightarrow> string option \<Rightarrow> bytesio option" where
  "download_media_as_bytes e u referer =
     (case http_get e u (case referer of None \<Rightarrow> None
                          | Some r \<Rightarrow> if r = [] then None else Some r) of
        None \<Rightarrow> None
      | Some r \<Rightarrow> if status_ok r then Some \<lparr>buf_content = body r, buf_pos = 0\<rparr> else None)"

fun seek0 :: "payload \<Rightarrow> payload" where
  "seek0 (Buf b) = Buf (b\<lparr>buf_pos := 0\<rparr>)"
| "seek0 (NotBuf s) = NotBuf s"

definition rewind :: "kwargs \<Rightarrow> kwargs" where
  "rewind kw = kw\<lparr>kw_video := map_option seek0 (kw_video kw),
                  kw_animation := map_option seek0 (kw_animation kw),
                  kw_thumbnail := map_option seek0 (kw_thumbnail kw),
                  kw_media := map_option (map seek0) (kw_media kw)\<rparr>"

text \<open>A send call reads the buffers it is given: each cursor ends at \<open>n\<close>, or at the
  end of the content when that is shorter.\<close>

fun read_to :: "nat \<Rightarrow> payload \<Rightarrow> payload" where
  "read_to n (Buf b) = Buf (b\<lparr>buf_pos := min n (length (buf_content b))\<rparr>)"
| "read_to n (NotBuf s) = NotBuf s"

definition consume :: "nat \<Rightarrow> kwargs \<Rightarrow> kwargs" where
  "consume n kw = \<lparr>kw_video = map_option (read_to n) (kw_video kw),
                   kw_animation = map_option (read_to n) (kw_animation kw),
                   kw_thumbnail = map_option (read_to n) (kw_thumbnail kw),
                   kw_media = map_option (map (read_to n)) (kw_media kw),
                   kw_other = map (\<lambda>(k, v). (k, read_to n v)) (kw_other kw)\<rparr>"

text \<open>\<^verbatim>\<open>_send_with_retry\<close>: the loop over \<^verbatim>\<open>range(3)\<close>. An exception that is no
  \<^verbatim>\<open>TelegramError\<close> leaves the function.\<close>

fun send_loop :: "env \<Rightarrow> nat list \<Rightarrow> kwargs \<Rightarrow> world \<Rightarrow> (exn + unit) \<times> world" where
  "send_loop e [] kw w = (Inr (), w)"
| "send_loop e (attempt # rest) kw w =
     (let kw0 = rewind kw;
          out = fst (channel e (sends w));
          kw1 = consume (snd (channel e (sends w))) kw0;
          w1 = emit (Send attempt kw0 out) (w\<lparr>sends := Suc (sends w)\<rparr>)
      in case out of
           Delivered \<Rightarrow> (Inr (), emit (Sleep 2) w1)
         | RetryAfter t \<Rightarrow> send_loop e rest kw1 (emit (Sleep t) w1)
         | TelegramError \<Rightarrow>
             if attempt = 2 then (Inr (), w1)
             else send_loop e rest kw1 (emit (Sleep 5) w1)
         | OtherException \<Rightarrow> (Inl Failure, w1))"

definition send_with_retry :: "env \<Rightarrow> kwargs \<Rightarrow> world \<Rightarrow> (exn + unit) \<times> world" where
  "send_with_retry e kw w = send_loop e [0, 1, 2] kw w"

definition media_group_kwargs :: "payload list \<Rightarrow> kwargs" where
  "media_group_kwargs media_group =
     \<lparr>kw_video = None, kw_animation = None, kw_thumbnail = None,
      kw_media = Some media_group, kw_other = [(''chat_id'', NotBuf ''CHANNEL_ID'')]\<rparr>"

text \<open>One pass of the loop body of \<^verbatim>\<open>send_images\<close> after the cancellation check; the
  result is the media group the next pass starts with.\<close>

definition image_item ::
  "env \<Rightarrow> string \<Rightarrow> url \<Rightarrow> payload list \<Rightarrow> world \<Rightarrow> (exn + payload list) \<times> world" where
  "image_item e referer u media_group w =
     (let d = download_media_as_bytes e u (Some referer);
          w1 = emit (Download u (Some referer) (d \<noteq> None)) w
      in case d of
           None \<Rightarrow> (Inr media_group, w1)
         | Some image_bytes \<Rightarrow>
             (let w2 = w1\<lparr>ledger := insert u (ledger w1)\<rparr>;
                  converted =
                    (if endswith (lower u) ''.webp''
                     then map_option (\<lambda>j. \<lparr>buf_content = j, buf_pos = 0\<rparr>)
                            (to_jpeg e (buf_content image_bytes))
                     else Some image_bytes)
              in case converted of
                   None \<Rightarrow> (Inr media_group, w2)
                 | Some b \<Rightarrow>
                     (let media_group' = media_group @ [Buf b]
                      in if length media_group' = 10
                         then (let sent = send_with_retry e (media_group_kwargs media_group') w2
                               in (case fst sent of Inl x \<Rightarrow> Inl x | Inr _ \<Rightarrow> Inr [],
                                   snd sent))
                         else (Inr media_group', w2))))"

fun images_loop ::
  "env \<Rightarrow> int \<Rightarrow> string \<Rightarrow> url list \<Rightarrow> payload list \<Rightarrow> world \<Rightarrow>
   (exn + payload list) \<times> world" where
  "images_loop e chat referer [] media_group w = (Inr media_group, w)"
| "images_loop e chat referer (u # us) media_group w =
     (if cancel_flag e chat (polls w) then (Inl CancelledError, poll w)
      else (case image_item e referer u media_group (poll w) of
              (Inl x, w') \<Rightarrow> (Inl x, w')
            | (Inr media_group', w') \<Rightarrow> images_loop e chat referer us media_group' w'))"

definition send_images ::
  "env \<Rightarrow> url list \<Rightarrow> string \<Rightarrow> int \<Rightarrow> world \<Rightarrow> (exn + unit) \<times> world" where
  "send_images e urls referer chat w =
     (if urls = [] then (Inr (), w)
      else (case images_loop e chat referer urls [] w of
              (Inl x, w') \<Rightarrow> (Inl x, w')
            | (Inr media_group, w') \<Rightarrow>
                if media_group \<noteq> []
                then send_with_retry e (media_group_kwargs media_group) w'
                else (Inr (), w')))"

definition basename :: "string \<Rightarrow> string" where
  "basename p = rev (takeWhile (\<lambda>c. c \<noteq> CHR ''/'') (rev p))"

definition video_kwargs :: "env \<Rightarrow> url \<Rightarrow> bytesio \<Rightarrow> kwargs" where
  "video_kwargs e u video_bytes =
     \<lparr>kw_video = Some (Buf video_bytes), kw_animation = None, kw_thumbnail = None,
      kw_media = None,
      kw_other = [(''chat_id'', NotBuf ''CHANNEL_ID''),
                  (''filename'', NotBuf (if basename (urlpath e u) \<noteq> []
                                          then basename (urlpath e u) else timestamp_name e)),
                  (''supports_streaming'', NotBuf ''True''),
                  (''write_timeout'', NotBuf ''60'')]\<rparr>"

text \<open>\<^verbatim>\<open>send_videos\<close>: an exception of the send is logged and swallowed.\<close>

fun videos_loop :: "env \<Rightarrow> int \<Rightarrow> string \<Rightarrow> url list \<Rightarrow> world \<Rightarrow> (exn + unit) \<times> world" where
  "videos_loop e chat referer [] w = (Inr (), w)"
| "videos_loop e chat referer (u # us) w =
     (if cancel_flag e chat (polls w) then (Inl CancelledError, poll w)
      else (let d = download_media_as_bytes e u (Some referer);
                w1 = emit (Download u (Some referer) (d \<noteq> None)) (poll w)
            in case d of
                 None \<Rightarrow> videos_loop e chat referer us w1
               | Some video_bytes \<Rightarrow>
                   videos_loop e chat referer us
                     (snd (send_with_retry e (video_kwargs e u video_bytes)
                             (w1\<lparr>ledger := insert u (ledger w1)\<rparr>)))))"

definition send_videos ::
  "env \<Rightarrow> url list \<Rightarrow> string \<Rightarrow> int \<Rightarrow> world \<Rightarrow> (exn + unit) \<times> world" where
  "send_videos e urls referer chat w = videos_loop e chat referer urls w"

section \<open>Extraction\<close>

definition IGNORED_MEDIA_PATTERNS :: "string list" where
  "IGNORED_MEDIA_PATTERNS =
     [''/avatars/'', ''/styles/'', ''/smilies/'', ''/assets/'',
      ''cdninstagram.com'', ''/addonflare/'', ''/icons/'']"

definition embed_patterns :: "embed_pattern list" where
  "embed_patterns = [FileAssign, SourceSrc, FileUrlField, BareMediaUrl]"

text \<open>\<^verbatim>\<open>tag.get(attr)\<close>.\<close>

definition tag_get :: "tag \<Rightarrow> string \<Rightarrow> string option" where
  "tag_get t a = map_of (tattrs t) a"

text \<open>The loop over the patterns of \<^verbatim>\<open>scrape_embedded_video\<close>: the first pattern with a
  match returns; \<open>Inl\<close> is an exception of \<^verbatim>\<open>urljoin\<close>.\<close>

fun first_match :: "env \<Rightarrow> url \<Rightarrow> string \<Rightarrow> embed_pattern list \<Rightarrow> exn + url option" where
  "first_match e embed_url text [] = Inr None"
| "first_match e embed_url text (p # ps) =
     (case re_search e p text of
        None \<Rightarrow> first_match e embed_url text ps
      | Some g \<Rightarrow>
          (case urljoin e embed_url (unescape_slashes (strip g)) of
             None \<Rightarrow> Inl Failure
           | Some v \<Rightarrow> Inr (Some v)))"

definition scrape_embedded_video :: "env \<Rightarrow> url \<Rightarrow> string \<Rightarrow> url option" where
  "scrape_embedded_video e embed_url referer =
     (case http_get e embed_url (Some referer) of
        None \<Rightarrow> None
      | Some r \<Rightarrow>
          if \<not> status_ok r then None
          else (case first_match e embed_url (body r) embed_patterns of
                  Inl _ \<Rightarrow> None
                | Inr v \<Rightarrow> v))"

record media =
  images :: "url list"
  videos :: "url list"
  gifs :: "url list"

definition no_media :: media where
  "no_media = \<lparr>images = [], videos = [], gifs = []\<rparr>"

text \<open>The nested loops over the tags \<^verbatim>\<open>a\<close>, \<^verbatim>\<open>img\<close>, \<^verbatim>\<open>video\<close>, \<^verbatim>\<open>source\<close> and the
  attributes \<^verbatim>\<open>href\<close>, \<^verbatim>\<open>src\<close>, \<^verbatim>\<open>data-src\<close> visit these attribute values, in this order
  (an absent or empty value is skipped).\<close>

definition candidate_links :: "tag list \<Rightarrow> string list" where
  "candidate_links page =
     concat (map (\<lambda>t. concat (map (\<lambda>a. case tag_get t a of
                                          None \<Rightarrow> []
                                        | Some link \<Rightarrow> if link = [] then [] else [link])
                                 [''href'', ''src'', ''data-src'']))
               (filter (\<lambda>t. tname t \<in> set [''a'', ''img'', ''video'', ''source'']) page))"

text \<open>One visited link: resolved, tested against the ignore list, classified by the
  extension of its path and appended to its list when new. \<open>None\<close> is an exception.\<close>

definition add_link :: "env \<Rightarrow> url \<Rightarrow> string \<Rightarrow> media \<Rightarrow> media option" where
  "add_link e page_url link m =
     (case urljoin e page_url link of
        None \<Rightarrow> None
      | Some full_url \<Rightarrow>
          if list_ex (\<lambda>p. contains_str full_url p) IGNORED_MEDIA_PATTERNS then Some m
          else (let path = lower (urlpath e full_url)
                in if list_ex (\<lambda>ext. endswith path ext) [''.jpg'', ''.jpeg'', ''.png'', ''.webp'']
                   then Some (if full_url \<in> set (images m) then m
                              else m\<lparr>images := images m @ [full_url]\<rparr>)
                   else if endswith path ''.gif''
                   then Some (if full_url \<in> set (gifs m) then m
                              else m\<lparr>gifs := gifs m @ [full_url]\<rparr>)
                   else if list_ex (\<lambda>ext. endswith path ext) [''.mp4'', ''.webm'', ''.mov'']
                   then Some (if full_url \<in> set (videos m) then m
                              else m\<lparr>videos := videos m @ [full_url]\<rparr>)
                   else Some m))"

text \<open>The loops return what they collected and whether an exception ended them.\<close>

fun scan_links :: "env \<Rightarrow> url \<Rightarrow> string list \<Rightarrow> media \<Rightarrow> media \<times> bool" where
  "scan_links e page_url [] m = (m, False)"
| "scan_links e page_url (link # links) m =
     (case add_link e page_url link m of
        None \<Rightarrow> (m, True)
      | Some m' \<Rightarrow> scan_links e page_url links m')"

definition iframe_srcs :: "tag list \<Rightarrow> string list" where
  "iframe_srcs page =
     concat (map (\<lambda>t. case tag_get t ''src'' of
                         None \<Rightarrow> []
                       | Some src \<Rightarrow> if src = [] then [] else [src])
               (filter (\<lambda>t. tname t = ''iframe'') page))"

fun scan_iframes :: "env \<Rightarrow> url \<Rightarrow> string list \<Rightarrow> media \<Rightarrow> media \<times> bool" where
  "scan_iframes e page_url [] m = (m, False)"
| "scan_iframes e page_url (iframe_src # srcs) m =
     (case urljoin e page_url iframe_src of
        None \<Rightarrow> (m, True)
      | Some embed_url \<Rightarrow>
          (case scrape_embedded_video e embed_url page_url of
             None \<Rightarrow> scan_iframes e page_url srcs m
           | Some video_url \<Rightarrow>
               scan_iframes e page_url srcs
                 (if video_url \<noteq> [] \<and> video_url \<notin> set (videos m)
                  then m\<lparr>videos := videos m @ [video_url]\<rparr> else m)))"

text \<open>The three lookups for the next-page anchor, the first found winning;
  the third is the regular expression for the text "Next", any case, with whitespace
  around it.\<close>

definition find_next_tag :: "tag list \<Rightarrow> tag option" where
  "find_next_tag page =
     (case find (\<lambda>t. tname t = ''a'' \<and> ''pageNav-jump--next'' \<in> set (tclass t)) page of
        Some t \<Rightarrow> Some t
      | None \<Rightarrow>
          (case find (\<lambda>t. tname t = ''a'' \<and> ''next'' \<in> set (trel t)) page of
             Some t \<Rightarrow> Some t
           | None \<Rightarrow>
               find (\<lambda>t. tname t = ''a'' \<and>
                          (case tstring t of None \<Rightarrow> False
                           | Some s \<Rightarrow> lower (strip s) = ''next'')) page))"

definition next_page :: "env \<Rightarrow> url \<Rightarrow> tag list \<Rightarrow> url option" where
  "next_page e page_url page =
     (case find_next_tag page of
        None \<Rightarrow> None
      | Some next_tag \<Rightarrow>
          (case tag_get next_tag ''href'' of
             None \<Rightarrow> None
           | Some href \<Rightarrow> if href = [] then None else urljoin e page_url href))"

text \<open>The body of the \<^verbatim>\<open>try\<close> of \<^verbatim>\<open>extract_media_from_page\<close>: what was collected and
  the next-page URL when the exception handler is reached or the body ends.\<close>

definition collect_media :: "env \<Rightarrow> url \<Rightarrow> media \<times> url option" where
  "collect_media e page_url =
     (case http_get e page_url None of
        None \<Rightarrow> (no_media, None)
      | Some r \<Rightarrow>
          if \<not> status_ok r then (no_media, None)
          else (case scan_links e page_url (candidate_links (soup r)) no_media of
                  (m1, True) \<Rightarrow> (m1, None)
                | (m1, False) \<Rightarrow>
                    (case scan_iframes e page_url (iframe_srcs (soup r)) m1 of
                       (m2, True) \<Rightarrow> (m2, None)
                     | (m2, False) \<Rightarrow> (m2, next_page e page_url (soup r)))))"

definition extract_media_from_page :: "env \<Rightarrow> url \<Rightarrow> media \<times> url option \<times> url option" where
  "extract_media_from_page e page_url =
     (let (media_urls, next_page_url) = collect_media e page_url
      in (\<lparr>images = take 50 (images media_urls),
           videos = take 20 (videos media_urls),
           gifs = take 10 (gifs media_urls)\<rparr>, None, next_page_url))"

section \<open>Video-link mode\<close>

text \<open>\<^verbatim>\<open>make_absolute_url\<close>; \<open>Inl\<close> is an exception of \<^verbatim>\<open>urljoin\<close>.\<close>

definition make_absolute_url :: "env \<Rightarrow> string \<Rightarrow> url \<Rightarrow> exn + url option" where
  "make_absolute_url e u base_url =
     (if u = [] then Inr None
      else if startswith u ''http://'' \<or> startswith u ''https://'' then Inr (Some u)
      else if startswith u ''//'' then Inr (Some (''https:'' @ u))
      else if startswith u ''/'' then Inr (Some (url_origin e base_url @ u))
      else (case urljoin e base_url u of None \<Rightarrow> Inl Failure | Some v \<Rightarrow> Inr (Some v)))"

text \<open>The candidate URLs in the order the two loops of
  \<^verbatim>\<open>extract_video_links_from_html\<close> visit them: per script with a non-empty string and
  per pattern, the matches; then, per tag \<^verbatim>\<open>video\<close>, \<^verbatim>\<open>source\<close>, \<^verbatim>\<open>a\<close>, \<^verbatim>\<open>iframe\<close>, its
  \<^verbatim>\<open>src\<close> or else its \<^verbatim>\<open>href\<close> when that names a video.\<close>

definition link_patterns :: "link_pattern list" where
  "link_patterns = [SetVideoUrl, VideoUrlField, FileAssignLink, BareVideoUrl]"

definition script_candidates :: "env \<Rightarrow> tag list \<Rightarrow> string list" where
  "script_candidates e page =
     concat (map (\<lambda>t. case tstring t of
                         None \<Rightarrow> []
                       | Some text \<Rightarrow>
                           if text = [] then []
                           else concat (map (\<lambda>p. re_findall e p text) link_patterns))
               (filter (\<lambda>t. tname t = ''script'') page))"

definition src_or_href :: "tag \<Rightarrow> string option" where
  "src_or_href t =
     (case tag_get t ''src'' of
        None \<Rightarrow> tag_get t ''href''
      | Some src \<Rightarrow> if src = [] then tag_get t ''href'' else Some src)"

definition tag_candidates :: "env \<Rightarrow> tag list \<Rightarrow> string list" where
  "tag_candidates e page =
     concat (map (\<lambda>t. case src_or_href t of
                         None \<Rightarrow> []
                       | Some u \<Rightarrow> if u \<noteq> [] \<and> re_video_ref e u then [u] else [])
               (filter (\<lambda>t. tname t \<in> set [''video'', ''source'', ''a'', ''iframe'']) page))"

text \<open>The loop body shared by both loops: a candidate is made absolute and appended
  with the page title unless its URL is already listed.\<close>

fun add_video_links ::
  "env \<Rightarrow> url \<Rightarrow> string \<Rightarrow> string list \<Rightarrow> (string \<times> url) list \<Rightarrow> exn + (string \<times> url) list" where
  "add_video_links e base_url page_title [] video_links = Inr video_links"
| "add_video_links e base_url page_title (u # us) video_links =
     (case make_absolute_url e u base_url of
        Inl x \<Rightarrow> Inl x
      | Inr None \<Rightarrow> add_video_links e base_url page_title us video_links
      | Inr (Some absolute_url) \<Rightarrow>
          add_video_links e base_url page_title us
            (if absolute_url \<noteq> [] \<and> absolute_url \<notin> set (map snd video_links)
             then video_links @ [(page_title, absolute_url)] else video_links))"

text \<open>\<^verbatim>\<open>soup.title.string.strip()\<close> raises when the title element has no string.\<close>

definition extract_video_links_from_html ::
  "env \<Rightarrow> tag list \<Rightarrow> url \<Rightarrow> exn + (string \<times> url) list" where
  "extract_video_links_from_html e page base_url =
     (case (case find (\<lambda>t. tname t = ''title'') page of
              None \<Rightarrow> Inr ''Untitled''
            | Some t \<Rightarrow> (case tstring t of None \<Rightarrow> Inl Failure | Some s \<Rightarrow> Inr (strip s))) of
        Inl x \<Rightarrow> Inl x
      | Inr page_title \<Rightarrow>
          (case add_video_links e base_url page_title
                  (script_candidates e page @ tag_candidates e page) [] of
             Inl x \<Rightarrow> Inl x
           | Inr video_links \<Rightarrow> Inr (take 5 video_links)))"

definition extract_video_links :: "env \<Rightarrow> url \<Rightarrow> (string \<times> url) list" where
  "extract_video_links e u =
     (case http_get e u None of
        None \<Rightarrow> []
      | Some r \<Rightarrow>
          if \<not> status_ok r then []
          else (case extract_video_links_from_html e (soup r) u of
                  Inl _ \<Rightarrow> []
                | Inr video_links \<Rightarrow> video_links))"

text \<open>Both job loops give a seed URL a scheme when it does not start with \<^verbatim>\<open>http\<close>.\<close>

definition with_scheme :: "url \<Rightarrow> url" where
  "with_scheme u = (if startswith u ''http'' then u else ''https://'' @ u)"

definition save_links_to_file :: "(string \<times> url) list \<Rightarrow> string" where
  "save_links_to_file links =
     concat (map (\<lambda>(title, link). title @ '' - '' @ link @ [CHR 0x0A]) links)"

text \<open>The loop over the seed URLs of \<^verbatim>\<open>process_video_links\<close>; \<open>n\<close> counts the reads of
  the cancellation flag.\<close>

fun gather_links ::
  "env \<Rightarrow> int \<Rightarrow> nat \<Rightarrow> url list \<Rightarrow> (string \<times> url) list \<Rightarrow> (string \<times> url) list" where
  "gather_links e chat n [] all_links = all_links"
| "gather_links e chat n (u # us) all_links =
     (if cancel_flag e chat n then all_links
      else gather_links e chat (Suc n) us (all_links @ extract_video_links e (with_scheme u)))"

text \<open>The document sent to the chat (file content and the count of the caption), or
  \<open>None\<close> when no link was found and only the status message is edited.\<close>

definition process_video_links :: "env \<Rightarrow> int \<Rightarrow> url list \<Rightarrow> (string \<times> nat) option" where
  "process_video_links e chat urls =
     (let all_links = gather_links e chat 0 urls []
      in if all_links \<noteq> []
         then (let unique_links = dict_items all_links
               in Some (save_links_to_file unique_links, length unique_links))
         else None)"

section \<open>The media-scraper job\<close>

datatype job_outcome = Completed | Cancelled | Failed

text \<open>The loop over the seed URLs of \<^verbatim>\<open>process_media_scraper\<close>; \<open>n_urls\<close> is
  \<^verbatim>\<open>len(urls)\<close> and \<open>i\<close> the index of the first URL of the list. A raised cancellation
  flag ends the loop by \<^verbatim>\<open>break\<close>. The event \<open>PageFetch\<close> stands for the request by which
  \<^verbatim>\<open>extract_media_from_page\<close> fetches the page; the requests of the embed resolver for the
  frames of that page are not recorded.\<close>

fun scrape_loop ::
  "env \<Rightarrow> int \<Rightarrow> nat \<Rightarrow> nat \<Rightarrow> url list \<Rightarrow> world \<Rightarrow> (exn + unit) \<times> world" where
  "scrape_loop e chat n_urls i [] w = (Inr (), w)"
| "scrape_loop e chat n_urls i (u # us) w =
     (if cancel_flag e chat (polls w) then (Inr (), poll w)
      else (let page_url = with_scheme u;
                w1 = emit (PageFetch page_url)
                       (emit (Status (Processing (i + 1) n_urls (take 50 page_url))) (poll w));
                media_urls = fst (extract_media_from_page e page_url);
                new_images = filter (\<lambda>x. x \<notin> ledger w1) (images media_urls);
                new_videos = filter (\<lambda>x. x \<notin> ledger w1) (videos media_urls);
                sent_images = (if new_images \<noteq> [] then send_images e new_images page_url chat w1
                               else (Inr (), w1))
            in case fst sent_images of
                 Inl x \<Rightarrow> (Inl x, snd sent_images)
               | Inr _ \<Rightarrow>
                   (let sent_videos =
                          (if new_videos \<noteq> []
                           then send_videos e new_videos page_url chat (snd sent_images)
                           else (Inr (), snd sent_images))
                    in case fst sent_videos of
                         Inl x \<Rightarrow> (Inl x, snd sent_videos)
                       | Inr _ \<Rightarrow>
                           scrape_loop e chat n_urls (i + 1) us
                             (if i + 1 < n_urls then emit (Sleep 10) (snd sent_videos)
                              else snd sent_videos))))"

definition process_media_scraper ::
  "env \<Rightarrow> int \<Rightarrow> url list \<Rightarrow> world \<Rightarrow> job_outcome \<times> world" where
  "process_media_scraper e chat urls w =
     (case scrape_loop e chat (length urls) 0 urls w of
        (Inr _, w') \<Rightarrow> (Completed, emit (Sleep 3) (emit (Status ScrapingComplete) w'))
      | (Inl CancelledError, w') \<Rightarrow> (Cancelled, emit (Status Canceled) w')
      | (Inl Failure, w') \<Rightarrow> (Failed, emit (Status ErrorStatus) w'))"

section \<open>The retry wrapper, attempt by attempt\<close>

text \<open>
  A description of \<^verbatim>\<open>_send_with_retry\<close> that does not follow its loop: how many calls
  of the send method it makes when the channel's outcomes from the \<open>s\<close>-th call on are
  given, what it sleeps after the \<open>i\<close>-th of them, and the keyword arguments the \<open>i\<close>-th
  call receives (what the call before left, rewound).
\<close>

definition retryable :: "outcome \<Rightarrow> bool" where
  "retryable out = (case out of RetryAfter t \<Rightarrow> True | TelegramError \<Rightarrow> True | _ \<Rightarrow> False)"

definition attempts_made :: "env \<Rightarrow> nat \<Rightarrow> nat" where
  "attempts_made e s =
     (if \<not> retryable (fst (channel e s)) then 1
      else if \<not> retryable (fst (channel e (s + 1))) then 2 else 3)"

definition pause_after :: "nat \<Rightarrow> outcome \<Rightarrow> event list" where
  "pause_after i out =
     (case out of
        Delivered \<Rightarrow> [Sleep 2]
      | RetryAfter t \<Rightarrow> [Sleep t]
      | TelegramError \<Rightarrow> if i = 2 then [] else [Sleep 5]
      | OtherException \<Rightarrow> [])"

fun kw_at :: "env \<Rightarrow> nat \<Rightarrow> kwargs \<Rightarrow> nat \<Rightarrow> kwargs" where
  "kw_at e s kw 0 = rewind kw"
| "kw_at e s kw (Suc i) = rewind (consume (snd (channel e (s + i))) (kw_at e s kw i))"

definition retry_events :: "env \<Rightarrow> nat \<Rightarrow> kwargs \<Rightarrow> event list" where
  "retry_events e s kw =
     concat (map (\<lambda>i. Send i (kw_at e s kw i) (fst (channel e (s + i)))
                        # pause_after i (fst (channel e (s + i))))
               [0 ..< attempts_made e s])"

section \<open>Reading the event list\<close>

text \<open>The URLs whose download succeeded, in the order of the downloads.\<close>

fun downloads_ok :: "event list \<Rightarrow> url list" where
  "downloads_ok [] = []"
| "downloads_ok (Download u r ok # evs) = (if ok then u # downloads_ok evs else downloads_ok evs)"
| "downloads_ok (ev # evs) = downloads_ok evs"

text \<open>The media groups handed to the retry wrapper, one per first call (attempt 0) of a
  grouped send, in order.\<close>

fun group_sends :: "event list \<Rightarrow> payload list list" where
  "group_sends [] = []"
| "group_sends (Send i kw out # evs) =
     (if i = 0 then (case kw_media kw of Some g \<Rightarrow> g # group_sends evs | None \<Rightarrow> group_sends evs)
      else group_sends evs)"
| "group_sends (ev # evs) = group_sends evs"

text \<open>A list cut into consecutive pieces of ten, the last piece holding the rest.\<close>

function batches :: "'a list \<Rightarrow> 'a list list" where
  "batches xs = (if xs = [] then [] else take 10 xs # batches (drop 10 xs))"
  by pat_completeness auto
termination
  by (relation "measure length") auto

text \<open>What one URL contributes to the media groups: nothing when its download or its
  conversion from WebP fails, else the downloaded (or converted) image.\<close>

definition ready_item :: "env \<Rightarrow> string \<Rightarrow> url \<Rightarrow> payload list" where
  "ready_item e referer u =
     (case download_media_as_bytes e u (Some referer) of
        None \<Rightarrow> []
      | Some b \<Rightarrow>
          if endswith (lower u) ''.webp''
          then (case to_jpeg e (buf_content b) of
                  None \<Rightarrow> []
                | Some j \<Rightarrow> [Buf \<lparr>buf_content = j, buf_pos = 0\<rparr>])
          else [Buf b])"

definition ready :: "env \<Rightarrow> string \<Rightarrow> url list \<Rightarrow> payload list" where
  "ready e referer urls = concat (map (ready_item e referer) urls)"

section \<open>What a page offers, described without the loops\<close>

text \<open>The kind the extractor gives a resolved URL: none when the URL contains an ignored
  substring or its path has none of the known extensions.\<close>

datatype kind = Image | Gif | Video

definition media_kind :: "env \<Rightarrow> url \<Rightarrow> kind option" where
  "media_kind e full_url =
     (if list_ex (\<lambda>p. contains_str full_url p) IGNORED_MEDIA_PATTERNS then None
      else if list_ex (\<lambda>ext. endswith (lower (urlpath e full_url)) ext)
                [''.jpg'', ''.jpeg'', ''.png'', ''.webp''] then Some Image
      else if endswith (lower (urlpath e full_url)) ''.gif'' then Some Gif
      else if list_ex (\<lambda>ext. endswith (lower (urlpath e full_url)) ext)
                [''.mp4'', ''.webm'', ''.mov''] then Some Video
      else None)"

text \<open>A list without its repetitions, every element at the place of its first
  occurrence.\<close>

definition first_seen :: "'a list \<Rightarrow> 'a list" where
  "first_seen xs = rev (remdups (rev xs))"

text \<open>The links resolved before the first one on which \<^verbatim>\<open>urljoin\<close> raises, and whether
  none raises.\<close>

definition resolved :: "env \<Rightarrow> url \<Rightarrow> string list \<Rightarrow> url list" where
  "resolved e page_url links =
     map the (takeWhile (\<lambda>x. x \<noteq> None) (map (urljoin e page_url) links))"

definition resolves_all :: "env \<Rightarrow> url \<Rightarrow> string list \<Rightarrow> bool" where
  "resolves_all e page_url links = list_all (\<lambda>l. urljoin e page_url l \<noteq> None) links"

text \<open>The non-empty results of the embed resolver for the frames of a page.\<close>

definition embedded :: "env \<Rightarrow> url \<Rightarrow> string list \<Rightarrow> url list" where
  "embedded e page_url srcs =
     concat (map (\<lambda>embed_url. case scrape_embedded_video e embed_url page_url of
                                 None \<Rightarrow> []
                               | Some v \<Rightarrow> if v = [] then [] else [v])
               (resolved e page_url srcs))"

text \<open>Every URL of a kind that a page offers, in the order of discovery and with
  repetitions: the links of the tags first, then (for videos, and only when the scan of
  the tags ended without an exception) the resolved embeds.\<close>

definition found :: "env \<Rightarrow> url \<Rightarrow> kind \<Rightarrow> url list" where
  "found e page_url k =
     (case http_get e page_url None of
        None \<Rightarrow> []
      | Some r \<Rightarrow>
          if \<not> status_ok r then []
          else filter (\<lambda>u. media_kind e u = Some k)
                 (resolved e page_url (candidate_links (soup r)))
               @ (if k = Video \<and> resolves_all e page_url (candidate_links (soup r))
                  then embedded e page_url (iframe_srcs (soup r)) else []))"

text \<open>The pages the job loop fetched and the URLs whose download was requested, in
  order.\<close>

fun page_fetches :: "event list \<Rightarrow> url list" where
  "page_fetches [] = []"
| "page_fetches (PageFetch u # evs) = u # page_fetches evs"
| "page_fetches (ev # evs) = page_fetches evs"

fun download_requests :: "event list \<Rightarrow> url list" where
  "download_requests [] = []"
| "download_requests (Download u r ok # evs) = u # download_requests evs"
| "download_requests (ev # evs) = download_requests evs"

text \<open>What the job loop may hand to delivery for a page: the entries of its image and
  video lists.\<close>

definition deliverable :: "env \<Rightarrow> url \<Rightarrow> url set" where
  "deliverable e page_url =
     set (images (fst (extract_media_from_page e page_url))) \<union>
     set (videos (fst (extract_media_from_page e page_url)))"

text \<open>The byte strings a send call was given, and those sent so far.\<close>

fun payload_content :: "payload \<Rightarrow> string list" where
  "payload_content (Buf b) = [buf_content b]"
| "payload_content (NotBuf s) = []"

definition group_contents :: "payload list \<Rightarrow> string list" where
  "group_contents g = concat (map payload_content g)"

definition kwargs_contents :: "kwargs \<Rightarrow> string list" where
  "kwargs_contents kw =
     group_contents (case kw_video kw of None \<Rightarrow> [] | Some p \<Rightarrow> [p]) @
     group_contents (case kw_animation kw of None \<Rightarrow> [] | Some p \<Rightarrow> [p]) @
     group_contents (case kw_thumbnail kw of None \<Rightarrow> [] | Some p \<Rightarrow> [p]) @
     group_contents (case kw_media kw of None \<Rightarrow> [] | Some g \<Rightarrow> g) @
     group_contents (map snd (kw_other kw))"

fun sent_contents :: "event list \<Rightarrow> string list" where
  "sent_contents [] = []"
| "sent_contents (Send i kw out # evs) = kwargs_contents kw @ sent_contents evs"
| "sent_contents (ev # evs) = sent_contents evs"

text \<open>The byte strings that the URLs of \<open>D\<close> give: what a download of one of them
  returns, and its conversion to JPEG.\<close>

definition fetched :: "env \<Rightarrow> url set \<Rightarrow> string set" where
  "fetched e D =
     {c. \<exists>u \<in> D. \<exists>r b. download_media_as_bytes e u r = Some b \<and>
           (c = buf_content b \<or> to_jpeg e (buf_content b) = Some c)}"

text \<open>A step from \<open>w\<close> to \<open>w'\<close> that fetches no page, requests downloads of URLs of \<open>D\<close>
  only, sends only what the URLs of \<open>D\<close> give, and adds URLs of \<open>D\<close> only to a ledger that
  loses nothing.\<close>

definition delivers_only :: "env \<Rightarrow> url set \<Rightarrow> world \<Rightarrow> world \<Rightarrow> bool" where
  "delivers_only e D w w' =
     (ledger w \<subseteq> ledger w' \<and> ledger w' \<subseteq> ledger w \<union> D \<and>
      set (download_requests (events w')) \<subseteq> set (download_requests (events w)) \<union> D \<and>
      set (sent_contents (events w')) \<subseteq> set (sent_contents (events w)) \<union> fetched e D \<and>
      page_fetches (events w') = page_fetches (events w))"

text \<open>A text that is exactly "Next" when case and surrounding whitespace are ignored:
  whitespace, then the four letters in either case, then whitespace.\<close>

definition says_next :: "string \<Rightarrow> bool" where
  "says_next s =
     (\<exists>a w b. s = a @ w @ b \<and> list_all is_space a \<and> list_all is_space b \<and>
        length w = 4 \<and> w ! 0 \<in> set ''Nn'' \<and> w ! 1 \<in> set ''Ee'' \<and>
        w ! 2 \<in> set ''Xx'' \<and> w ! 3 \<in> set ''Tt'')"

text \<open>The anchors of a page, in document order, that qualify as the next-page link by
  their class, by their \<^verbatim>\<open>rel\<close> attribute, and by their text.\<close>

definition anchors_with_class :: "tag list \<Rightarrow> tag list" where
  "anchors_with_class page =
     filter (\<lambda>t. tname t = ''a'' \<and> ''pageNav-jump--next'' \<in> set (tclass t)) page"

definition anchors_with_rel :: "tag list \<Rightarrow> tag list" where
  "anchors_with_rel page = filter (\<lambda>t. tname t = ''a'' \<and> ''next'' \<in> set (trel t)) page"

definition anchors_saying_next :: "tag list \<Rightarrow> tag list" where
  "anchors_saying_next page =
     filter (\<lambda>t. tname t = ''a'' \<and> (\<exists>s. tstring t = Some s \<and> says_next s)) page"

section \<open>Concrete inputs\<close>

text \<open>A world in which every request fails, no page matches, nobody cancels and the
  channel accepts every send; the inputs below change one part of it at a time.\<close>

definition quiet_env :: env where
  "quiet_env =
     \<lparr>http_get = (\<lambda>u r. None), re_search = (\<lambda>p t. None),
      re_findall = (\<lambda>p t. []), re_video_ref = (\<lambda>u. endswith (lower u) ''.mp4''),
      url_origin = (\<lambda>u. ''http://s''),
      urljoin = (\<lambda>b l. Some l), urlpath = (\<lambda>u. u), to_jpeg = (\<lambda>b. Some b),
      timestamp_name = ''video_0.mp4'', cancel_flag = (\<lambda>c n. False),
      channel = (\<lambda>n. (Delivered, 0))\<rparr>"

definition fresh_world :: world where
  "fresh_world = \<lparr>ledger = {}, events = [], polls = 0, sends = 0\<rparr>"

definition one_video :: kwargs where
  "one_video =
     \<lparr>kw_video = Some (Buf \<lparr>buf_content = ''abc'', buf_pos = 0\<rparr>),
      kw_animation = None, kw_thumbnail = None, kw_media = None, kw_other = []\<rparr>"

text \<open>A channel that answers every send with a rate limit of 7 seconds, after reading
  two bytes of what it was given.\<close>

definition flooded_env :: env where
  "flooded_env = quiet_env\<lparr>channel := \<lambda>n. (RetryAfter 7, 2)\<rparr>"

text \<open>One image that downloads, and a channel that refuses every send.\<close>

definition image_response :: response where
  "image_response = \<lparr>status_ok = True, body = ''IMG'', soup = []\<rparr>"

definition refusing_env :: env where
  "refusing_env =
     quiet_env\<lparr>http_get := \<lambda>u r. if u = ''http://h/a.jpg'' then Some image_response else None,
               channel := \<lambda>n. (TelegramError, 0)\<rparr>"

definition one_photo :: kwargs where
  "one_photo = media_group_kwargs [Buf \<lparr>buf_content = ''IMG'', buf_pos = 0\<rparr>]"

text \<open>Twenty-five images that all download and need no conversion.\<close>

definition album_urls :: "url list" where
  "album_urls = map (\<lambda>c. ''http://h/'' @ [c] @ ''.jpg'') ''abcdefghijklmnopqrstuvwxy''"

definition album_env :: env where
  "album_env = quiet_env\<lparr>http_get := \<lambda>u r. Some image_response\<rparr>"

text \<open>An embed page on which the second and the fourth pattern match; the matched text
  has whitespace around it (a no-break space, spaces, U+0085) and escaped slashes.\<close>

definition embed_response :: response where
  "embed_response = \<lparr>status_ok = True, body = ''<source src=...>'', soup = []\<rparr>"

definition escaped_url :: string where
  "escaped_url =
     [CHR 0xA0] @ '' http:'' @ esc_slash @ esc_slash @ ''cdn'' @ esc_slash @
       ''real.mp4 '' @ [CHR 0x85]"

definition embed_env :: env where
  "embed_env =
     quiet_env\<lparr>http_get := \<lambda>u r. if u = ''http://embed/x'' then Some embed_response else None,
               re_search := \<lambda>p t. if p = SourceSrc \<or> p = BareMediaUrl then Some escaped_url
                                    else None\<rparr>"

text \<open>Pages: an image, a frame, an anchor with \<^verbatim>\<open>rel="next"\<close>. On the page of
  \<open>overlap_env m\<close> the URL \<open>m\<close> is the source of an image tag and also what the frame's
  player page yields; the page of \<open>site_env\<close> has one image and a next-page link.\<close>

definition img_tag :: "string \<Rightarrow> tag" where
  "img_tag src = \<lparr>tname = ''img'', tattrs = [(''src'', src)], tclass = [], trel = [], tstring = None\<rparr>"

definition iframe_tag :: "string \<Rightarrow> tag" where
  "iframe_tag src =
     \<lparr>tname = ''iframe'', tattrs = [(''src'', src)], tclass = [], trel = [], tstring = None\<rparr>"

definition next_anchor :: "string \<Rightarrow> tag" where
  "next_anchor href =
     \<lparr>tname = ''a'', tattrs = [(''href'', href)], tclass = [], trel = [''next''],
      tstring = Some ''2''\<rparr>"

definition overlap_env :: "url \<Rightarrow> env" where
  "overlap_env m =
     quiet_env\<lparr>http_get := \<lambda>u r.
                   if u = ''http://s/p''
                   then Some \<lparr>status_ok = True, body = '''',
                              soup = [img_tag m, iframe_tag ''http://e/x'']\<rparr>
                   else if u = ''http://e/x''
                   then Some \<lparr>status_ok = True, body = ''player'', soup = []\<rparr>
                   else if u = m then Some image_response
                   else None,
               re_search := \<lambda>p t. if p = FileAssign \<and> t = ''player'' then Some m else None\<rparr>"

definition site_env :: env where
  "site_env =
     quiet_env\<lparr>http_get := \<lambda>u r.
                   if u = ''http://s/p1''
                   then Some \<lparr>status_ok = True, body = '''',
                              soup = [img_tag ''http://h/a.jpg'', next_anchor ''http://s/p2'']\<rparr>
                   else if u = ''http://h/a.jpg'' then Some image_response
                   else None\<rparr>"



text \<open>The same site with a cancel request that arrives while the first page's image is
  being delivered (seen by the third read of the flag), or before that delivery starts
  (seen by the second read).\<close>

definition late_cancel_env :: env where
  "late_cancel_env = site_env\<lparr>cancel_flag := \<lambda>c n. 2 \<le> n\<rparr>"

definition early_cancel_env :: env where
  "early_cancel_env = site_env\<lparr>cancel_flag := \<lambda>c n. 1 \<le> n\<rparr>"

text \<open>A page with three anchors that each qualify as the next-page link in one way:
  by its text (with a no-break space, a space and a line feed around it), by \<^verbatim>\<open>rel\<close>,
  and (last in the document) by its class; and a site that serves this page.\<close>

definition nav_page :: "tag list" where
  "nav_page =
     [\<lparr>tname = ''a'', tattrs = [(''href'', ''/by-text'')], tclass = [], trel = [],
       tstring = Some (CHR 0xA0 # '' NEXT\<newline>'')\<rparr>,
      \<lparr>tname = ''a'', tattrs = [(''href'', ''/by-rel'')], tclass = [], trel = [''next''],
       tstring = Some ''2''\<rparr>,
      \<lparr>tname = ''a'', tattrs = [(''href'', ''/by-class'')],
       tclass = [''pageNav-jump'', ''pageNav-jump--next''], trel = [], tstring = Some ''>''\<rparr>]"

definition nav_env :: env where
  "nav_env =
     quiet_env\<lparr>http_get := \<lambda>u r.
                   if u = ''http://s/p''
                   then Some \<lparr>status_ok = True, body = [], soup = nav_page\<rparr>
                   else None\<rparr>"

text \<open>Three video pages: two with different titles that surface the same video URL, and
  one that surfaces two videos.\<close>

definition title_tag :: "string \<Rightarrow> tag" where
  "title_tag s = \<lparr>tname = ''title'', tattrs = [], tclass = [], trel = [], tstring = Some s\<rparr>"

definition video_tag :: "string \<Rightarrow> tag" where
  "video_tag src =
     \<lparr>tname = ''video'', tattrs = [(''src'', src)], tclass = [], trel = [], tstring = None\<rparr>"

definition two_titles_env :: env where
  "two_titles_env =
     quiet_env\<lparr>http_get := \<lambda>u r.
                   if u = ''http://s/p1''
                   then Some \<lparr>status_ok = True, body = [],
                              soup = [title_tag ''A'', video_tag ''http://h/v.mp4'']\<rparr>
                   else if u = ''http://s/p2''
                   then Some \<lparr>status_ok = True, body = [],
                              soup = [title_tag ''B'', video_tag ''http://h/v.mp4'']\<rparr>
                   else if u = ''http://s/p3''
                   then Some \<lparr>status_ok = True, body = [],
                              soup = [title_tag ''T'', video_tag ''http://h/a.mp4'',
                                      video_tag ''http://h/b.mp4'']\<rparr>
                   else None\<rparr>"

section \<open>Video-link mode: what the final deduplication keeps\<close>

lemma keys_dict_set: "fst ` set (dict_set d k v) = insert k (fst ` set d)"
  by (induction d k v rule: dict_set.induct) auto

lemma distinct_dict_set: "distinct (map fst d) \<Longrightarrow> distinct (map fst (dict_set d k v))"
proof (induction d k v rule: dict_set.induct)
  case (1 k v)
  then show ?case by simp
next
  case (2 k' v' d k v)
  then show ?case using keys_dict_set [of d k v] by (auto simp: image_iff)
qed

lemma distinct_foldl_dict_set:
  "distinct (map fst d) \<Longrightarrow> distinct (map fst (foldl (\<lambda>d (k, v). dict_set d k v) d ps))"
  by (induction ps arbitrary: d) (auto simp: distinct_dict_set)

text \<open>\<^verbatim>\<open>dict(all_links)\<close> is keyed by the first component of each pair, the title: the
  titles of the artifact are pairwise distinct, the URLs need not be.\<close>

lemma dict_items_titles_distinct: "distinct (map fst (dict_items ps))"
  unfolding dict_items_def by (rule distinct_foldl_dict_set) simp

text \<open>\<^verbatim>\<open>str.lower()\<close> on the printable ASCII characters and the line feed, character by
  character.\<close>

lemma lower_char_ascii:
  "lower_char (CHR 0x20) = CHR 0x20" "lower_char (CHR 0x21) = CHR 0x21"
  "lower_char (CHR 0x22) = CHR 0x22" "lower_char (CHR 0x23) = CHR 0x23"
  "lower_char (CHR 0x24) = CHR 0x24" "lower_char (CHR 0x25) = CHR 0x25"
  "lower_char (CHR 0x26) = CHR 0x26" "lower_char (CHR 0x27) = CHR 0x27"
  "lower_char (CHR 0x28) = CHR 0x28" "lower_char (CHR 0x29) = CHR 0x29"
  "lower_char (CHR 0x2A) = CHR 0x2A" "lower_char (CHR 0x2B) = CHR 0x2B"
  "lower_char (CHR 0x2C) = CHR 0x2C" "lower_char (CHR 0x2D) = CHR 0x2D"
  "lower_char (CHR 0x2E) = CHR 0x2E" "lower_char (CHR 0x2F) = CHR 0x2F"
  "lower_char (CHR 0x30) = CHR 0x30" "lower_char (CHR 0x31) = CHR 0x31"
  "lower_char (CHR 0x32) = CHR 0x32" "lower_char (CHR 0x33) = CHR 0x33"
  "lower_char (CHR 0x34) = CHR 0x34" "lower_char (CHR 0x35) = CHR 0x35"
  "lower_char (CHR 0x36) = CHR 0x36" "lower_char (CHR 0x37) = CHR 0x37"
  "lower_char (CHR 0x38) = CHR 0x38" "lower_char (CHR 0x39) = CHR 0x39"
  "lower_char (CHR 0x3A) = CHR 0x3A" "lower_char (CHR 0x3B) = CHR 0x3B"
  "lower_char (CHR 0x3C) = CHR 0x3C" "lower_char (CHR 0x3D) = CHR 0x3D"
  "lower_char (CHR 0x3E) = CHR 0x3E" "lower_char (CHR 0x3F) = CHR 0x3F"
  "lower_char (CHR 0x40) = CHR 0x40" "lower_char (CHR 0x41) = CHR 0x61"
  "lower_char (CHR 0x42) = CHR 0x62" "lower_char (CHR 0x43) = CHR 0x63"
  "lower_char (CHR 0x44) = CHR 0x64" "lower_char (CHR 0x45) = CHR 0x65"
  "lower_char (CHR 0x46) = CHR 0x66" "lower_char (CHR 0x47) = CHR 0x67"
  "lower_char (CHR 0x48) = CHR 0x68" "lower_char (CHR 0x49) = CHR 0x69"
  "lower_char (CHR 0x4A) = CHR 0x6A" "lower_char (CHR 0x4B) = CHR 0x6B"
  "lower_char (CHR 0x4C) = CHR 0x6C" "lower_char (CHR 0x4D) = CHR 0x6D"
  "lower_char (CHR 0x4E) = CHR 0x6E" "lower_char (CHR 0x4F) = CHR 0x6F"
  "lower_char (CHR 0x50) = CHR 0x70" "lower_char (CHR 0x51) = CHR 0x71"
  "lower_char (CHR 0x52) = CHR 0x72" "lower_char (CHR 0x53) = CHR 0x73"
  "lower_char (CHR 0x54) = CHR 0x74" "lower_char (CHR 0x55) = CHR 0x75"
  "lower_char (CHR 0x56) = CHR 0x76" "lower_char (CHR 0x57) = CHR 0x77"
  "lower_char (CHR 0x58) = CHR 0x78" "lower_char (CHR 0x59) = CHR 0x79"
  "lower_char (CHR 0x5A) = CHR 0x7A" "lower_char (CHR 0x5B) = CHR 0x5B"
  "lower_char (CHR 0x5C) = CHR 0x5C" "lower_char (CHR 0x5D) = CHR 0x5D"
  "lower_char (CHR 0x5E) = CHR 0x5E" "lower_char (CHR 0x5F) = CHR 0x5F"
  "lower_char (CHR 0x60) = CHR 0x60" "lower_char (CHR 0x61) = CHR 0x61"
  "lower_char (CHR 0x62) = CHR 0x62" "lower_char (CHR 0x63) = CHR 0x63"
  "lower_char (CHR 0x64) = CHR 0x64" "lower_char (CHR 0x65) = CHR 0x65"
  "lower_char (CHR 0x66) = CHR 0x66" "lower_char (CHR 0x67) = CHR 0x67"
  "lower_char (CHR 0x68) = CHR 0x68" "lower_char (CHR 0x69) = CHR 0x69"
  "lower_char (CHR 0x6A) = CHR 0x6A" "lower_char (CHR 0x6B) = CHR 0x6B"
  "lower_char (CHR 0x6C) = CHR 0x6C" "lower_char (CHR 0x6D) = CHR 0x6D"
  "lower_char (CHR 0x6E) = CHR 0x6E" "lower_char (CHR 0x6F) = CHR 0x6F"
  "lower_char (CHR 0x70) = CHR 0x70" "lower_char (CHR 0x71) = CHR 0x71"
  "lower_char (CHR 0x72) = CHR 0x72" "lower_char (CHR 0x73) = CHR 0x73"
  "lower_char (CHR 0x74) = CHR 0x74" "lower_char (CHR 0x75) = CHR 0x75"
  "lower_char (CHR 0x76) = CHR 0x76" "lower_char (CHR 0x77) = CHR 0x77"
  "lower_char (CHR 0x78) = CHR 0x78" "lower_char (CHR 0x79) = CHR 0x79"
  "lower_char (CHR 0x7A) = CHR 0x7A" "lower_char (CHR 0x7B) = CHR 0x7B"
  "lower_char (CHR 0x7C) = CHR 0x7C" "lower_char (CHR 0x7D) = CHR 0x7D"
  "lower_char (CHR 0x7E) = CHR 0x7E" "lower_char (CHR 0x0A) = CHR 0x0A"
  by (simp_all add: lower_char_def upper_chars_def lower_chars_def)

lemmas string_ops = startswith_def endswith_def lower_def lower_char_ascii strip_def
  is_space_def
  basename_def IGNORED_MEDIA_PATTERNS_def

lemma two_titles_links:
  "extract_video_links two_titles_env ''http://s/p1'' = [(''A'', ''http://h/v.mp4'')]"
  "extract_video_links two_titles_env ''http://s/p2'' = [(''B'', ''http://h/v.mp4'')]"
  "extract_video_links two_titles_env ''http://s/p3''
     = [(''T'', ''http://h/a.mp4''), (''T'', ''http://h/b.mp4'')]"
  by (simp_all add: extract_video_links_def extract_video_links_from_html_def
        script_candidates_def tag_candidates_def src_or_href_def tag_get_def
        make_absolute_url_def two_titles_env_def quiet_env_def title_tag_def video_tag_def
        string_ops)

lemma two_titles_flag: "cancel_flag two_titles_env = (\<lambda>c n. False)"
  by (simp add: two_titles_env_def quiet_env_def)

text \<open>One page that yields two links: both carry the page's title, and the later URL
  replaces the earlier one.\<close>

lemma video_links_one_title_two_urls:
  "process_video_links two_titles_env 1 [''http://s/p3'']
   = Some (''T - http://h/b.mp4\<newline>'', 1)"
  by (simp add: process_video_links_def two_titles_links two_titles_flag with_scheme_def
        startswith_def dict_items_def save_links_to_file_def)

text \<open>
  Claim C1. In video-link mode the accumulated (title, url) pairs are said to be
  deduplicated by URL at the end of a run, the first-seen title winning, so that two seed
  pages surfacing the same video URL under different titles give one line. The program
  builds \<^verbatim>\<open>dict(all_links)\<close>, whose keys are the titles: on two pages titled A and B that
  both surface \<^verbatim>\<open>http://h/v.mp4\<close>, the artifact has two lines for that URL and the caption
  counts two links.
\<close>

theorem video_links_same_url_two_titles:
  "process_video_links two_titles_env 1 [''http://s/p1'', ''http://s/p2'']
   = Some (''A - http://h/v.mp4\<newline>B - http://h/v.mp4\<newline>'', 2)"
  by (simp add: process_video_links_def two_titles_links two_titles_flag with_scheme_def
        startswith_def dict_items_def save_links_to_file_def)

section \<open>The retry wrapper\<close>

lemma emit_fields [simp]:
  "ledger (emit ev w) = ledger w" "polls (emit ev w) = polls w"
  "sends (emit ev w) = sends w" "events (emit ev w) = events w @ [ev]"
  by (simp_all add: emit_def)

lemma poll_fields [simp]:
  "ledger (poll w) = ledger w" "polls (poll w) = Suc (polls w)"
  "sends (poll w) = sends w" "events (poll w) = events w"
  by (simp_all add: poll_def)

lemma seek0_read_to: "seek0 (read_to n p) = seek0 p"
  by (cases p) simp_all

lemma seek0_idem: "seek0 (seek0 p) = seek0 p"
  by (cases p) simp_all

text \<open>Whatever the earlier calls read, the buffers under the four keys the wrapper
  rewinds reach every call with their cursor at the start.\<close>

lemma rewind_fields_kw_at:
  "kw_video (kw_at e s kw i) = map_option seek0 (kw_video kw) \<and>
   kw_animation (kw_at e s kw i) = map_option seek0 (kw_animation kw) \<and>
   kw_thumbnail (kw_at e s kw i) = map_option seek0 (kw_thumbnail kw) \<and>
   kw_media (kw_at e s kw i) = map_option (map seek0) (kw_media kw)"
  by (induction i)
     (simp_all add: rewind_def consume_def option.map_comp comp_def seek0_read_to seek0_idem)

lemma upt_small: "[0..<3] = [0, 1, 2]" "[0..<2] = [0, 1]" "[0..<1] = [0]"
  by (simp_all add: upt_rec)

lemma send_with_retry_events:
  "events (snd (send_with_retry e kw w)) = events w @ retry_events e (sends w) kw"
  unfolding send_with_retry_def retry_events_def attempts_made_def
  by (cases "fst (channel e (sends w))"; cases "fst (channel e (Suc (sends w)))";
      cases "fst (channel e (Suc (Suc (sends w))))")
     (simp_all add: Let_def retryable_def pause_after_def upt_small numeral_2_eq_2
        numeral_3_eq_3)

lemma send_with_retry_result:
  "fst (send_with_retry e kw w) =
     (if fst (channel e (sends w + (attempts_made e (sends w) - 1))) = OtherException
      then Inl Failure else Inr ())"
  unfolding send_with_retry_def attempts_made_def
  by (cases "fst (channel e (sends w))"; cases "fst (channel e (Suc (sends w)))";
      cases "fst (channel e (Suc (Suc (sends w))))")
     (simp_all add: Let_def retryable_def numeral_2_eq_2)

lemma send_with_retry_sends:
  "sends (snd (send_with_retry e kw w)) = sends w + attempts_made e (sends w)"
  unfolding send_with_retry_def attempts_made_def
  by (cases "fst (channel e (sends w))"; cases "fst (channel e (Suc (sends w)))";
      cases "fst (channel e (Suc (Suc (sends w))))")
     (simp_all add: Let_def retryable_def)

lemma send_loop_keeps:
  "ledger (snd (send_loop e as kw w)) = ledger w \<and>
   polls (snd (send_loop e as kw w)) = polls w"
  by (induction as arbitrary: kw w) (simp_all add: Let_def split: outcome.splits)

lemma send_with_retry_keeps [simp]:
  "ledger (snd (send_with_retry e kw w)) = ledger w"
  "polls (snd (send_with_retry e kw w)) = polls w"
  by (simp_all only: send_with_retry_def send_loop_keeps)

text \<open>
  Claim C2, as the specification states it: on a rate-limit signal the wrapper retries
  the same payload without bound, and rate-limit retries never use up the attempt budget.
  On a channel that answers every send with a rate limit the wrapper calls the send
  method three times, sleeps the cooldown after each, and returns: the payload is never
  delivered and no fourth call is made.
\<close>

theorem rate_limit_uses_up_attempts:
  "send_with_retry flooded_env one_video fresh_world =
     (Inr (),
      \<lparr>ledger = {},
       events = [Send 0 one_video (RetryAfter 7), Sleep 7,
                 Send 1 one_video (RetryAfter 7), Sleep 7,
                 Send 2 one_video (RetryAfter 7), Sleep 7],
       polls = 0, sends = 3\<rparr>)"
  by (simp add: send_with_retry_def flooded_env_def quiet_env_def one_video_def
        fresh_world_def Let_def emit_def rewind_def consume_def)

text \<open>
  Claim C2, amended. For every send, whatever the channel does: the wrapper calls the
  send method between one and three times, stopping at the first call that succeeds or
  raises a foreign exception; a rate-limited call is followed by a sleep of the
  channel's cooldown and any other channel error by a sleep of 5 seconds (none after the
  third call), and both kinds of failure count against the same three calls; a
  successful call is followed by a sleep of 2 seconds; every call receives the buffers
  under \<^verbatim>\<open>video\<close>, \<^verbatim>\<open>animation\<close>, \<^verbatim>\<open>thumbnail\<close> and of the \<^verbatim>\<open>media\<close> items with their
  cursor at the start; the ledger is untouched, and the wrapper returns normally unless
  its last call raised a foreign exception.
\<close>

theorem send_with_retry_bounded:
  "events (snd (send_with_retry e kw w)) = events w @ retry_events e (sends w) kw \<and>
   sends (snd (send_with_retry e kw w)) = sends w + attempts_made e (sends w) \<and>
   ledger (snd (send_with_retry e kw w)) = ledger w \<and>
   1 \<le> attempts_made e (sends w) \<and> attempts_made e (sends w) \<le> 3 \<and>
   fst (send_with_retry e kw w) =
     (if fst (channel e (sends w + (attempts_made e (sends w) - 1))) = OtherException
      then Inl Failure else Inr ()) \<and>
   (\<forall>i. kw_video (kw_at e (sends w) kw i) = map_option seek0 (kw_video kw) \<and>
        kw_animation (kw_at e (sends w) kw i) = map_option seek0 (kw_animation kw) \<and>
        kw_thumbnail (kw_at e (sends w) kw i) = map_option seek0 (kw_thumbnail kw) \<and>
        kw_media (kw_at e (sends w) kw i) = map_option (map seek0) (kw_media kw))"
  using send_with_retry_events [of e kw w] send_with_retry_sends [of e kw w]
    send_with_retry_result [of e kw w] rewind_fields_kw_at [of e "sends w" kw]
  by (simp add: attempts_made_def)

section \<open>When a URL enters the ledger\<close>

lemma downloads_ok_append [simp]: "downloads_ok (a @ b) = downloads_ok a @ downloads_ok b"
  by (induction a rule: downloads_ok.induct) simp_all

lemma send_loop_downloads: "downloads_ok (events (snd (send_loop e as kw w))) = downloads_ok (events w)"
  by (induction as arbitrary: kw w) (simp_all add: Let_def split: outcome.splits)

lemma send_with_retry_downloads [simp]:
  "downloads_ok (events (snd (send_with_retry e kw w))) = downloads_ok (events w)"
  by (simp only: send_with_retry_def send_loop_downloads)

lemma image_item_ledger:
  "ledger (snd (image_item e referer u g w)) =
     (if download_media_as_bytes e u (Some referer) = None then ledger w
      else insert u (ledger w))"
  by (simp add: image_item_def Let_def split: option.splits)

lemma image_item_downloads:
  "downloads_ok (events (snd (image_item e referer u g w))) =
     downloads_ok (events w) @
     (if download_media_as_bytes e u (Some referer) = None then [] else [u])"
  by (simp add: image_item_def Let_def split: option.splits)

lemma images_loop_marks:
  "\<exists>ds. downloads_ok (events (snd (images_loop e chat referer urls g w)))
           = downloads_ok (events w) @ ds \<and>
        ledger (snd (images_loop e chat referer urls g w)) = ledger w \<union> set ds \<and>
        set ds \<subseteq> set urls"
proof (induction urls arbitrary: g w)
  case Nil
  then show ?case by simp
next
  case (Cons u us)
  show ?case
  proof (cases "cancel_flag e chat (polls w)")
    case True
    then show ?thesis by simp
  next
    case False
    define d1 where "d1 = (if download_media_as_bytes e u (Some referer) = None then [] else [u])"
    obtain r w1 where step: "image_item e referer u g (poll w) = (r, w1)"
      by (cases "image_item e referer u g (poll w)")
    have dl: "downloads_ok (events w1) = downloads_ok (events w) @ d1"
      using image_item_downloads [of e referer u g "poll w"] step by (simp add: d1_def)
    have led: "ledger w1 = ledger w \<union> set d1"
      using image_item_ledger [of e referer u g "poll w"] step by (simp add: d1_def)
    have d1u: "set d1 \<subseteq> set (u # us)" by (simp add: d1_def)
    show ?thesis
    proof (cases r)
      case (Inl x)
      with False step dl led d1u show ?thesis by auto
    next
      case (Inr g')
      obtain ds where ds:
        "downloads_ok (events (snd (images_loop e chat referer us g' w1)))
           = downloads_ok (events w1) @ ds"
        "ledger (snd (images_loop e chat referer us g' w1)) = ledger w1 \<union> set ds"
        "set ds \<subseteq> set us"
        using Cons.IH [of g' w1] by blast
      have "downloads_ok (events (snd (images_loop e chat referer (u # us) g w)))
              = downloads_ok (events w) @ (d1 @ ds)"
        using False step Inr ds(1) dl by simp
      moreover have "ledger (snd (images_loop e chat referer (u # us) g w))
              = ledger w \<union> set (d1 @ ds)"
        using False step Inr ds(2) led by auto
      moreover have "set (d1 @ ds) \<subseteq> set (u # us)"
        using d1u ds(3) by auto
      ultimately show ?thesis by blast
    qed
  qed
qed

lemma send_images_marks:
  "\<exists>ds. downloads_ok (events (snd (send_images e urls referer chat w)))
           = downloads_ok (events w) @ ds \<and>
        ledger (snd (send_images e urls referer chat w)) = ledger w \<union> set ds \<and>
        set ds \<subseteq> set urls"
proof (cases "urls = []")
  case True
  then show ?thesis by (simp add: send_images_def)
next
  case False
  obtain r w1 where loop: "images_loop e chat referer urls [] w = (r, w1)"
    by (cases "images_loop e chat referer urls [] w")
  obtain ds where ds:
    "downloads_ok (events w1) = downloads_ok (events w) @ ds"
    "ledger w1 = ledger w \<union> set ds" "set ds \<subseteq> set urls"
    using images_loop_marks [of e chat referer urls "[]" w] loop by auto
  have "downloads_ok (events (snd (send_images e urls referer chat w))) = downloads_ok (events w1)"
    using False loop by (cases r) (simp_all add: send_images_def)
  moreover have "ledger (snd (send_images e urls referer chat w)) = ledger w1"
    using False loop by (cases r) (simp_all add: send_images_def)
  ultimately show ?thesis using ds by auto
qed

lemma videos_loop_marks:
  "\<exists>ds. downloads_ok (events (snd (videos_loop e chat referer urls w)))
           = downloads_ok (events w) @ ds \<and>
        ledger (snd (videos_loop e chat referer urls w)) = ledger w \<union> set ds \<and>
        set ds \<subseteq> set urls"
proof (induction urls arbitrary: w)
  case Nil
  then show ?case by simp
next
  case (Cons u us)
  show ?case
  proof (cases "cancel_flag e chat (polls w)")
    case True
    then show ?thesis by simp
  next
    case False
    show ?thesis
    proof (cases "download_media_as_bytes e u (Some referer)")
      case None
      define w1 where "w1 = emit (Download u (Some referer) False) (poll w)"
      obtain ds where ds:
        "downloads_ok (events (snd (videos_loop e chat referer us w1)))
           = downloads_ok (events w1) @ ds"
        "ledger (snd (videos_loop e chat referer us w1)) = ledger w1 \<union> set ds"
        "set ds \<subseteq> set us"
        using Cons.IH [of w1] by blast
      have "videos_loop e chat referer (u # us) w = videos_loop e chat referer us w1"
        using False None by (simp add: w1_def)
      with ds show ?thesis by (auto simp: w1_def)
    next
      case (Some b)
      define w1 where
        "w1 = snd (send_with_retry e (video_kwargs e u b)
                 ((emit (Download u (Some referer) True) (poll w))
                    \<lparr>ledger := insert u (ledger (emit (Download u (Some referer) True) (poll w)))\<rparr>))"
      obtain ds where ds:
        "downloads_ok (events (snd (videos_loop e chat referer us w1)))
           = downloads_ok (events w1) @ ds"
        "ledger (snd (videos_loop e chat referer us w1)) = ledger w1 \<union> set ds"
        "set ds \<subseteq> set us"
        using Cons.IH [of w1] by blast
      have eq: "videos_loop e chat referer (u # us) w = videos_loop e chat referer us w1"
        using False Some by (simp add: w1_def Let_def)
      have d1: "downloads_ok (events w1) = downloads_ok (events w) @ [u]"
        by (simp add: w1_def)
      have l1: "ledger w1 = insert u (ledger w)"
        by (simp add: w1_def)
      have "downloads_ok (events (snd (videos_loop e chat referer (u # us) w)))
              = downloads_ok (events w) @ (u # ds)"
        using eq ds(1) d1 by simp
      moreover have "ledger (snd (videos_loop e chat referer (u # us) w))
              = ledger w \<union> set (u # ds)"
        using eq ds(2) l1 by auto
      moreover have "set (u # ds) \<subseteq> set (u # us)" using ds(3) by auto
      ultimately show ?thesis by blast
    qed
  qed
qed

text \<open>
  Claim C3, as the specification states it: a URL is added to the ledger only after the
  item has been delivered. With one image that downloads and a channel that refuses
  every send, the image operation ends with the URL in the ledger although none of the
  three calls of the send method succeeded.
\<close>

theorem sent_without_delivery:
  "send_images refusing_env [''http://h/a.jpg''] ''http://s/p'' 1 fresh_world =
     (Inr (),
      \<lparr>ledger = {''http://h/a.jpg''},
       events = [Download ''http://h/a.jpg'' (Some ''http://s/p'') True,
                 Send 0 one_photo TelegramError, Sleep 5,
                 Send 1 one_photo TelegramError, Sleep 5,
                 Send 2 one_photo TelegramError],
       polls = 1, sends = 3\<rparr>)"
  by (simp add: send_images_def image_item_def download_media_as_bytes_def
        send_with_retry_def refusing_env_def quiet_env_def fresh_world_def image_response_def
        one_photo_def media_group_kwargs_def Let_def emit_def poll_def rewind_def consume_def
        endswith_def lower_def lower_char_ascii)

text \<open>
  Claim C3, amended. A URL enters the ledger when its download has succeeded, before the
  send that carries it and whether or not that send succeeds: for the image and for the
  video operation, from any state and whatever the channel and the cancellation flag do,
  the URLs added to the ledger are exactly the URLs of the list whose download succeeded
  during the operation.
\<close>

theorem ledger_add_follows_download:
  "(\<exists>ds. downloads_ok (events (snd (send_images e urls referer chat w)))
            = downloads_ok (events w) @ ds \<and>
         ledger (snd (send_images e urls referer chat w)) = ledger w \<union> set ds \<and>
         set ds \<subseteq> set urls) \<and>
   (\<exists>ds. downloads_ok (events (snd (send_videos e urls referer chat w)))
            = downloads_ok (events w) @ ds \<and>
         ledger (snd (send_videos e urls referer chat w)) = ledger w \<union> set ds \<and>
         set ds \<subseteq> set urls)"
  using send_images_marks [of e urls referer chat w] videos_loop_marks [of e chat referer urls w]
  unfolding send_videos_def by blast

section \<open>Image batches\<close>

declare batches.simps [simp del]

lemma group_sends_append [simp]: "group_sends (a @ b) = group_sends a @ group_sends b"
  by (induction a rule: group_sends.induct) (simp_all split: option.splits)

lemma batches_Nil [simp]: "batches [] = []"
  by (simp add: batches.simps)

lemma batches_full: "length g = 10 \<Longrightarrow> batches (g @ r) = g # batches r"
  by (subst batches.simps) auto

lemma batches_short: "xs \<noteq> [] \<Longrightarrow> length xs \<le> 10 \<Longrightarrow> batches xs = [xs]"
  by (subst batches.simps) simp

lemma batches_length: "g \<in> set (batches xs) \<Longrightarrow> length g \<le> 10 \<and> g \<noteq> []"
proof (induction xs rule: batches.induct)
  case (1 xs)
  show ?case
  proof (cases "xs = []")
    case True
    with 1 show ?thesis by simp
  next
    case False
    with 1 show ?thesis by (subst (asm) (2) batches.simps) auto
  qed
qed

lemma concat_batches: "concat (batches xs) = xs"
proof (induction xs rule: batches.induct)
  case (1 xs)
  then show ?case by (subst batches.simps) simp
qed

lemma batches_map: "batches (map f xs) = map (map f) (batches xs)"
proof (induction xs rule: batches.induct)
  case (1 xs)
  then show ?case
    by (subst batches.simps, subst (2) batches.simps) (simp add: take_map drop_map)
qed

lemma batches_25: "length xs = 25 \<Longrightarrow> map length (batches xs) = [10, 10, 5]"
  by (subst batches.simps, subst batches.simps, subst batches.simps, subst batches.simps) auto

lemma group_sends_retry_events:
  "group_sends (retry_events e s kw) =
     (case kw_media kw of Some g \<Rightarrow> [map seek0 g] | None \<Rightarrow> [])"
  unfolding retry_events_def attempts_made_def
  by (cases "fst (channel e s)"; cases "fst (channel e (Suc s))";
      cases "fst (channel e (Suc (Suc s)))")
     (simp_all add: retryable_def pause_after_def upt_small rewind_def split: option.splits)

lemma download_pos: "download_media_as_bytes e u r = Some b \<Longrightarrow> buf_pos b = 0"
  by (auto simp: download_media_as_bytes_def split: option.splits if_splits)

lemma seek0_ready_item: "map seek0 (ready_item e referer u) = ready_item e referer u"
proof (cases "download_media_as_bytes e u (Some referer)")
  case None
  then show ?thesis by (simp add: ready_item_def)
next
  case (Some b)
  then have "b\<lparr>buf_pos := 0\<rparr> = b" using download_pos [OF Some] by simp
  with Some show ?thesis by (simp add: ready_item_def split: option.splits)
qed

lemma seek0_ready: "map seek0 (ready e referer urls) = ready e referer urls"
  by (induction urls) (simp_all add: ready_def seek0_ready_item)


lemma ready_Cons: "ready e referer (u # us) = ready_item e referer u @ ready e referer us"
  by (simp add: ready_def)

lemma ready_Nil [simp]: "ready e referer [] = []"
  by (simp add: ready_def)

lemma send_with_retry_group:
  "group_sends (events (snd (send_with_retry e (media_group_kwargs g) w)))
     = group_sends (events w) @ [map seek0 g]"
  by (simp add: send_with_retry_events group_sends_retry_events media_group_kwargs_def)

lemma send_with_retry_video_group:
  "group_sends (events (snd (send_with_retry e (video_kwargs e u b) w))) = group_sends (events w)"
  by (simp add: send_with_retry_events group_sends_retry_events video_kwargs_def)

lemma send_with_retry_returns:
  "\<forall>n. fst (channel e n) \<noteq> OtherException \<Longrightarrow> fst (send_with_retry e kw w) = Inr ()"
  by (simp add: send_with_retry_result)

text \<open>One pass of the image loop when the channel raises no foreign exception;
  \<open>r\<close> stands for what the rest of the list will make ready.\<close>

lemma image_item_group:
  assumes ok: "\<forall>n. fst (channel e n) \<noteq> OtherException" and short: "length g < 10"
  shows "\<exists>g'. fst (image_item e referer u g w) = Inr g' \<and> length g' < 10 \<and>
           group_sends (events (snd (image_item e referer u g w)))
               @ batches (map seek0 (g' @ r))
             = group_sends (events w) @ batches (map seek0 (g @ ready_item e referer u @ r))"
proof (cases "ready_item e referer u")
  case Nil
  then have "fst (image_item e referer u g w) = Inr g"
    "group_sends (events (snd (image_item e referer u g w))) = group_sends (events w)"
    by (auto simp: image_item_def ready_item_def Let_def split: option.splits if_splits)
  with Nil short show ?thesis by simp
next
  case (Cons p ps)
  then have one: "ready_item e referer u = [p]"
    by (auto simp: ready_item_def split: option.splits if_splits)
  show ?thesis
  proof (cases "length (g @ [p]) = 10")
    case True
    have "fst (image_item e referer u g w) = Inr []"
      using one True send_with_retry_returns [OF ok]
      by (auto simp: image_item_def ready_item_def Let_def split: option.splits if_splits)
    moreover have "group_sends (events (snd (image_item e referer u g w)))
        = group_sends (events w) @ [map seek0 (g @ [p])]"
      using one True
      by (auto simp: image_item_def ready_item_def Let_def send_with_retry_group
            split: option.splits if_splits)
    moreover have "batches (map seek0 (g @ [p]) @ map seek0 r)
        = map seek0 (g @ [p]) # batches (map seek0 r)"
      using True by (intro batches_full) auto
    ultimately show ?thesis using one by simp
  next
    case False
    have "fst (image_item e referer u g w) = Inr (g @ [p])"
      "group_sends (events (snd (image_item e referer u g w))) = group_sends (events w)"
      using one False
      by (auto simp: image_item_def ready_item_def Let_def split: option.splits if_splits)
    with one False short show ?thesis by simp
  qed
qed

lemma images_loop_group:
  assumes nc: "\<forall>n. \<not> cancel_flag e chat n"
    and ok: "\<forall>n. fst (channel e n) \<noteq> OtherException"
  shows "length g < 10 \<Longrightarrow>
         \<exists>g'. fst (images_loop e chat referer urls g w) = Inr g' \<and> length g' < 10 \<and>
           group_sends (events (snd (images_loop e chat referer urls g w)))
               @ batches (map seek0 g')
             = group_sends (events w) @ batches (map seek0 (g @ ready e referer urls)) \<and>
           ledger (snd (images_loop e chat referer urls g w))
             = ledger w \<union> {u \<in> set urls. download_media_as_bytes e u (Some referer) \<noteq> None}"
proof (induction urls arbitrary: g w)
  case Nil
  then show ?case by simp
next
  case (Cons u us)
  obtain g1 where g1: "fst (image_item e referer u g (poll w)) = Inr g1" "length g1 < 10"
    "group_sends (events (snd (image_item e referer u g (poll w))))
         @ batches (map seek0 (g1 @ ready e referer us))
       = group_sends (events (poll w))
         @ batches (map seek0 (g @ ready_item e referer u @ ready e referer us))"
    using image_item_group [OF ok Cons.prems, of referer u "poll w" "ready e referer us"]
    by blast
  define w1 where "w1 = snd (image_item e referer u g (poll w))"
  have step: "image_item e referer u g (poll w) = (Inr g1, w1)"
    using g1(1) by (simp add: w1_def prod_eq_iff)
  have unfold: "images_loop e chat referer (u # us) g w = images_loop e chat referer us g1 w1"
    using nc step by simp
  obtain g' where g': "fst (images_loop e chat referer us g1 w1) = Inr g'" "length g' < 10"
    "group_sends (events (snd (images_loop e chat referer us g1 w1))) @ batches (map seek0 g')
       = group_sends (events w1) @ batches (map seek0 (g1 @ ready e referer us))"
    "ledger (snd (images_loop e chat referer us g1 w1))
       = ledger w1 \<union> {u \<in> set us. download_media_as_bytes e u (Some referer) \<noteq> None}"
    using Cons.IH [OF g1(2), of w1] by blast
  have led: "ledger w1 = (if download_media_as_bytes e u (Some referer) = None then ledger w
                          else insert u (ledger w))"
    using image_item_ledger [of e referer u g "poll w"] by (simp add: w1_def)
  have "group_sends (events (snd (images_loop e chat referer (u # us) g w)))
            @ batches (map seek0 g')
          = group_sends (events w) @ batches (map seek0 (g @ ready e referer (u # us)))"
    using unfold g'(3) g1(3) by (simp add: w1_def ready_Cons)
  moreover have "ledger (snd (images_loop e chat referer (u # us) g w))
      = ledger w \<union> {x \<in> set (u # us). download_media_as_bytes e x (Some referer) \<noteq> None}"
    using unfold g'(4) led by auto
  ultimately show ?case using unfold g'(1,2) by auto
qed

lemma send_images_group:
  assumes nc: "\<forall>n. \<not> cancel_flag e chat n"
    and ok: "\<forall>n. fst (channel e n) \<noteq> OtherException"
  shows "fst (send_images e urls referer chat w) = Inr () \<and>
         group_sends (events (snd (send_images e urls referer chat w)))
           = group_sends (events w) @ batches (ready e referer urls) \<and>
         ledger (snd (send_images e urls referer chat w))
           = ledger w \<union> {u \<in> set urls. download_media_as_bytes e u (Some referer) \<noteq> None}"
proof (cases "urls = []")
  case True
  then show ?thesis by (simp add: send_images_def)
next
  case False
  obtain g' where g': "fst (images_loop e chat referer urls [] w) = Inr g'" "length g' < 10"
    "group_sends (events (snd (images_loop e chat referer urls [] w))) @ batches (map seek0 g')
       = group_sends (events w) @ batches (map seek0 ([] @ ready e referer urls))"
    "ledger (snd (images_loop e chat referer urls [] w))
       = ledger w \<union> {u \<in> set urls. download_media_as_bytes e u (Some referer) \<noteq> None}"
    using images_loop_group [OF nc ok, of "[]" referer urls w] by auto
  define w1 where "w1 = snd (images_loop e chat referer urls [] w)"
  have loop: "images_loop e chat referer urls [] w = (Inr g', w1)"
    using g'(1) by (simp add: w1_def prod_eq_iff)
  have flush: "batches (map seek0 g') = (if g' = [] then [] else [map seek0 g'])"
    using g'(2) by (auto intro: batches_short)
  have "group_sends (events (snd (send_images e urls referer chat w)))
          = group_sends (events w1) @ batches (map seek0 g')"
    using False loop flush by (simp add: send_images_def send_with_retry_group)
  then have "group_sends (events (snd (send_images e urls referer chat w)))
          = group_sends (events w) @ batches (ready e referer urls)"
    using g'(3) by (simp add: w1_def seek0_ready)
  moreover have "fst (send_images e urls referer chat w) = Inr ()"
    using False loop send_with_retry_returns [OF ok] by (simp add: send_images_def)
  moreover have "ledger (snd (send_images e urls referer chat w)) = ledger w1"
    using False loop by (simp add: send_images_def)
  ultimately show ?thesis using g'(4) by (simp add: w1_def)
qed


lemma ready_item_plain:
  "download_media_as_bytes e u (Some referer) \<noteq> None \<Longrightarrow> \<not> endswith (lower u) ''.webp'' \<Longrightarrow>
   length (ready_item e referer u) = 1"
  by (auto simp: ready_item_def)

lemma ready_all_plain:
  "\<forall>u \<in> set urls. download_media_as_bytes e u (Some referer) \<noteq> None \<and>
      \<not> endswith (lower u) ''.webp'' \<Longrightarrow>
   length (ready e referer urls) = length urls"
  by (induction urls) (simp_all add: ready_Cons ready_item_plain)

text \<open>
  Claim C6. When nobody cancels and the channel raises no foreign exception, the image
  operation hands to the retry wrapper exactly the consecutive pieces of ten of the
  images that downloaded (and converted), in the order of the URL list: every group has
  between one and ten items, a URL whose download fails contributes nothing, and the
  ledger gains exactly the URLs whose download succeeded. For 25 URLs that all download
  and need no conversion the groups have sizes 10, 10 and 5, in that order.
\<close>

theorem image_batches_of_ten:
  assumes "\<forall>n. \<not> cancel_flag e chat n" and "\<forall>n. fst (channel e n) \<noteq> OtherException"
  shows "fst (send_images e urls referer chat w) = Inr () \<and>
         group_sends (events (snd (send_images e urls referer chat w)))
           = group_sends (events w) @ batches (ready e referer urls) \<and>
         (\<forall>g \<in> set (batches (ready e referer urls)). length g \<le> 10 \<and> g \<noteq> []) \<and>
         concat (batches (ready e referer urls)) = ready e referer urls \<and>
         ledger (snd (send_images e urls referer chat w))
           = ledger w \<union> {u \<in> set urls. download_media_as_bytes e u (Some referer) \<noteq> None} \<and>
         (length urls = 25 \<and>
          (\<forall>u \<in> set urls. download_media_as_bytes e u (Some referer) \<noteq> None \<and>
             \<not> endswith (lower u) ''.webp'') \<longrightarrow>
          map length (batches (ready e referer urls)) = [10, 10, 5])"
  using send_images_group [OF assms, of urls referer w] batches_length [of _ "ready e referer urls"]
    concat_batches [of "ready e referer urls"] batches_25 [of "ready e referer urls"]
    ready_all_plain [of urls e referer]
  by auto

lemma album_plain:
  "\<forall>u \<in> set album_urls. download_media_as_bytes album_env u (Some ''http://s/p'') \<noteq> None \<and>
      \<not> endswith (lower u) ''.webp''"
proof -
  have "\<not> endswith (lower (''http://h/'' @ [c] @ ''.jpg'')) ''.webp''" for c
    by (simp add: endswith_def lower_def lower_char_ascii)
  moreover have "download_media_as_bytes album_env u (Some ''http://s/p'') \<noteq> None" for u
    by (simp add: album_env_def quiet_env_def download_media_as_bytes_def image_response_def)
  ultimately show ?thesis
    unfolding album_urls_def by (auto simp del: append.simps)
qed

theorem image_batches_of_ten_witness:
  "(\<forall>n. \<not> cancel_flag album_env 1 n) \<and> (\<forall>n. fst (channel album_env n) \<noteq> OtherException) \<and>
   length album_urls = 25 \<and>
   fst (send_images album_env album_urls ''http://s/p'' 1 fresh_world) = Inr () \<and>
   map length (group_sends (events (snd (send_images album_env album_urls ''http://s/p'' 1
      fresh_world)))) = [10, 10, 5] \<and>
   ledger (snd (send_images album_env album_urls ''http://s/p'' 1 fresh_world)) = set album_urls"
proof -
  have nc: "\<forall>n. \<not> cancel_flag album_env 1 n"
    by (simp add: album_env_def quiet_env_def)
  have ok: "\<forall>n. fst (channel album_env n) \<noteq> OtherException"
    by (simp add: album_env_def quiet_env_def)
  have len: "length album_urls = 25"
    by (simp add: album_urls_def)
  have all: "{u \<in> set album_urls.
               download_media_as_bytes album_env u (Some ''http://s/p'') \<noteq> None} = set album_urls"
    using album_plain by auto
  show ?thesis
    using image_batches_of_ten [OF nc ok, of album_urls "''http://s/p''" fresh_world]
      nc ok len album_plain all
    by (simp add: fresh_world_def)
qed

section \<open>The embed resolver\<close>

lemma first_match_find:
  "first_match e embed_url text ps =
     (case find (\<lambda>p. re_search e p text \<noteq> None) ps of
        None \<Rightarrow> Inr None
      | Some p \<Rightarrow>
          (case urljoin e embed_url (unescape_slashes (strip (the (re_search e p text)))) of
             None \<Rightarrow> Inl Failure
           | Some v \<Rightarrow> Inr (Some v)))"
  by (induction ps) (auto split: option.splits)

text \<open>What the replacement of escaped slashes and the stripping of whitespace do, stated
  without their algorithms: a text without a backslash-slash is left alone, the leftmost
  backslash-slash becomes a slash and the replacement goes on behind it; stripping
  removes whitespace at both ends, nothing else, and leaves none at either end.\<close>

lemma startswith_esc:
  "startswith s esc_slash = (\<exists>r. s = CHR 0x5C # CHR ''/'' # r)"
  by (cases s; cases "tl s") (auto simp: startswith_def esc_slash_def)

lemma unescape_none: "\<not> contains_str s esc_slash \<Longrightarrow> unescape_slashes s = s"
proof (induction s rule: unescape_slashes.induct)
  case (1 a b cs)
  then show ?case by (auto simp: startswith_esc)
qed simp_all

lemma unescape_first:
  "\<not> contains_str (a @ [CHR 0x5C]) esc_slash \<Longrightarrow>
   unescape_slashes (a @ esc_slash @ b) = a @ ''/'' @ unescape_slashes b"
proof (induction a)
  case Nil
  then show ?case by (simp add: esc_slash_def)
next
  case (Cons c a)
  have no: "\<not> startswith (c # a @ [CHR 0x5C]) esc_slash" and rest: "\<not> contains_str (a @ [CHR 0x5C]) esc_slash"
    using Cons.prems by simp_all
  have "unescape_slashes (c # (a @ esc_slash @ b)) = c # unescape_slashes (a @ esc_slash @ b)"
    using no unfolding startswith_esc by (cases a) (auto simp: esc_slash_def)
  with Cons.IH [OF rest] show ?case by simp
qed

lemma rev_split_while:
  "xs = rev (dropWhile P (rev xs)) @ rev (takeWhile P (rev xs))"
  by (metis rev_append rev_rev_ident takeWhile_dropWhile_id)

lemma strip_sandwich:
  "\<exists>a b. s = a @ strip s @ b \<and> list_all is_space a \<and> list_all is_space b"
proof -
  define t where "t = dropWhile is_space s"
  have s: "s = takeWhile is_space s @ t" by (simp add: t_def)
  have t: "t = strip s @ rev (takeWhile is_space (rev t))"
    using rev_split_while [of t is_space] by (simp add: strip_def t_def)
  have "list_all is_space (takeWhile is_space s)"
    by (auto simp: list_all_iff dest: set_takeWhileD)
  moreover have "list_all is_space (rev (takeWhile is_space (rev t)))"
    by (auto simp: list_all_iff dest: set_takeWhileD)
  ultimately show ?thesis using s t by (metis append_assoc)
qed

lemma strip_ends:
  "strip s = [] \<or> (\<not> is_space (hd (strip s)) \<and> \<not> is_space (last (strip s)))"
proof (cases "strip s = []")
  case True
  then show ?thesis by simp
next
  case False
  define t where "t = dropWhile is_space s"
  have st: "strip s = rev (dropWhile is_space (rev t))" by (simp add: strip_def t_def)
  have ne: "dropWhile is_space (rev t) \<noteq> []" using False st by simp
  have "last (strip s) = hd (dropWhile is_space (rev t))"
    using ne by (simp add: st last_rev)
  then have l: "\<not> is_space (last (strip s))" using hd_dropWhile [OF ne] by simp
  have tne: "t \<noteq> []" using ne by auto
  have "t = strip s @ rev (takeWhile is_space (rev t))"
    using rev_split_while [of t is_space] by (simp add: st)
  then have "hd t = hd (strip s)" using False by (metis hd_append2)
  moreover have "\<not> is_space (hd t)" using tne unfolding t_def by (rule hd_dropWhile)
  ultimately show ?thesis using l by simp
qed

lemma strip_core:
  assumes a: "list_all is_space a" and b: "list_all is_space b"
    and w: "w \<noteq> []" "\<not> is_space (hd w)" "\<not> is_space (last w)"
  shows "strip (a @ w @ b) = w"
proof -
  have d1: "dropWhile is_space (a @ w @ b) = w @ b"
    using a w by (cases w) (auto simp: list_all_iff dropWhile_append)
  have "rev (w @ b) = rev b @ rev w" by simp
  moreover have "dropWhile is_space (rev b @ rev w) = rev w"
    using b w by (cases "rev w") (auto simp: list_all_iff dropWhile_append hd_rev)
  ultimately show ?thesis by (simp add: strip_def d1)
qed


text \<open>
  Claim C8. The embed resolver returns no result when the fetch raises or the status is
  an error, and every exception inside it ends in "no result" (its value is always a
  URL or nothing). Otherwise the first pattern of the list quoted file assignment,
  source element, fileURL field, bare media URL that matches decides alone: its group,
  stripped of surrounding whitespace and with every backslash-slash turned into a slash
  (from the left, without overlaps), is resolved against the embed-page URL; no later
  pattern is consulted, also when that resolution fails.
\<close>

theorem embed_first_pattern_wins:
  "scrape_embedded_video e embed_url referer =
     (case http_get e embed_url (Some referer) of
        None \<Rightarrow> None
      | Some r \<Rightarrow>
          if \<not> status_ok r then None
          else (case find (\<lambda>p. re_search e p (body r) \<noteq> None)
                       [FileAssign, SourceSrc, FileUrlField, BareMediaUrl] of
                  None \<Rightarrow> None
                | Some p \<Rightarrow>
                    urljoin e embed_url
                      (unescape_slashes (strip (the (re_search e p (body r))))))) \<and>
   (\<not> contains_str s esc_slash \<longrightarrow> unescape_slashes s = s) \<and>
   (\<not> contains_str (a @ [CHR 0x5C]) esc_slash \<longrightarrow>
      unescape_slashes (a @ esc_slash @ b) = a @ ''/'' @ unescape_slashes b) \<and>
   (\<exists>l r. t = l @ strip t @ r \<and> list_all is_space l \<and> list_all is_space r) \<and>
   (strip t = [] \<or> (\<not> is_space (hd (strip t)) \<and> \<not> is_space (last (strip t))))"
proof -
  have "scrape_embedded_video e embed_url referer =
     (case http_get e embed_url (Some referer) of
        None \<Rightarrow> None
      | Some r \<Rightarrow>
          if \<not> status_ok r then None
          else (case find (\<lambda>p. re_search e p (body r) \<noteq> None)
                       [FileAssign, SourceSrc, FileUrlField, BareMediaUrl] of
                  None \<Rightarrow> None
                | Some p \<Rightarrow>
                    urljoin e embed_url
                      (unescape_slashes (strip (the (re_search e p (body r)))))))"
    by (simp add: scrape_embedded_video_def first_match_find embed_patterns_def
          split: option.splits)
  then show ?thesis
    using unescape_none [of s] unescape_first [of a b] strip_sandwich [of t] strip_ends [of t]
    by blast
qed

text \<open>On the example page the second pattern wins over the fourth, and the escaped
  slashes and the whitespace are gone from the result.\<close>

theorem embed_first_pattern_wins_witness:
  "scrape_embedded_video embed_env ''http://embed/x'' ''http://s/p''
     = Some ''http://cdn/real.mp4'' \<and>
   \<not> contains_str ''http://cdn/real.mp4'' esc_slash \<and>
   unescape_slashes ''http://cdn/real.mp4'' = ''http://cdn/real.mp4'' \<and>
   \<not> contains_str (''http:'' @ [CHR 0x5C]) esc_slash \<and>
   unescape_slashes (''http:'' @ esc_slash @ esc_slash @ ''cdn'') = ''http://cdn'' \<and>
   strip escaped_url = ''http:'' @ esc_slash @ esc_slash @ ''cdn'' @ esc_slash @ ''real.mp4''"
  using embed_first_pattern_wins [of embed_env "''http://embed/x''" "''http://s/p''"
      "''http://cdn/real.mp4''" "''http:''" "esc_slash @ ''cdn''" escaped_url]
  by (simp add: embed_env_def quiet_env_def embed_response_def escaped_url_def esc_slash_def
        strip_def is_space_def startswith_def)


section \<open>The per-page lists\<close>

lemma first_seen_Nil [simp]: "first_seen [] = []"
  by (simp add: first_seen_def)

lemma first_seen_snoc:
  "first_seen (xs @ [x]) = (if x \<in> set xs then first_seen xs else first_seen xs @ [x])"
  by (simp add: first_seen_def)

lemma set_first_seen [simp]: "set (first_seen xs) = set xs"
  by (simp add: first_seen_def)

lemma distinct_first_seen [simp]: "distinct (first_seen xs)"
  by (simp add: first_seen_def)

lemma length_first_seen: "length (first_seen xs) = card (set xs)"
  using distinct_card [of "first_seen xs"] by simp

lemma add_link_kind:
  "add_link e page_url link m =
     (case urljoin e page_url link of
        None \<Rightarrow> None
      | Some u \<Rightarrow>
          Some (case media_kind e u of
                  None \<Rightarrow> m
                | Some Image \<Rightarrow> if u \<in> set (images m) then m else m\<lparr>images := images m @ [u]\<rparr>
                | Some Gif \<Rightarrow> if u \<in> set (gifs m) then m else m\<lparr>gifs := gifs m @ [u]\<rparr>
                | Some Video \<Rightarrow> if u \<in> set (videos m) then m else m\<lparr>videos := videos m @ [u]\<rparr>))"
  by (simp add: add_link_def media_kind_def Let_def split: option.splits)

lemma resolved_Nil [simp]: "resolved e page_url [] = []"
  by (simp add: resolved_def)

lemma resolved_Cons:
  "resolved e page_url (l # ls) =
     (case urljoin e page_url l of None \<Rightarrow> [] | Some u \<Rightarrow> u # resolved e page_url ls)"
  by (simp add: resolved_def split: option.splits)

lemma scan_links_first_seen:
  assumes "images m = first_seen (filter (\<lambda>u. media_kind e u = Some Image) pre)"
    and "gifs m = first_seen (filter (\<lambda>u. media_kind e u = Some Gif) pre)"
    and "videos m = first_seen (filter (\<lambda>u. media_kind e u = Some Video) pre)"
  shows "images (fst (scan_links e page_url links m))
           = first_seen (filter (\<lambda>u. media_kind e u = Some Image) (pre @ resolved e page_url links)) \<and>
         gifs (fst (scan_links e page_url links m))
           = first_seen (filter (\<lambda>u. media_kind e u = Some Gif) (pre @ resolved e page_url links)) \<and>
         videos (fst (scan_links e page_url links m))
           = first_seen (filter (\<lambda>u. media_kind e u = Some Video) (pre @ resolved e page_url links)) \<and>
         snd (scan_links e page_url links m) = (\<not> resolves_all e page_url links)"
  using assms
proof (induction links arbitrary: m pre)
  case Nil
  then show ?case by (simp add: resolves_all_def)
next
  case (Cons l ls)
  show ?case
  proof (cases "urljoin e page_url l")
    case None
    with Cons.prems show ?thesis
      by (simp add: add_link_kind resolved_Cons resolves_all_def)
  next
    case (Some u)
    define m' where "m' = the (add_link e page_url l m)"
    have step: "add_link e page_url l m = Some m'"
      using Some by (simp add: m'_def add_link_kind)
    have inv: "images m' = first_seen (filter (\<lambda>u. media_kind e u = Some Image) (pre @ [u]))"
      "gifs m' = first_seen (filter (\<lambda>u. media_kind e u = Some Gif) (pre @ [u]))"
      "videos m' = first_seen (filter (\<lambda>u. media_kind e u = Some Video) (pre @ [u]))"
      using Some Cons.prems
      by (auto simp: m'_def add_link_kind first_seen_snoc split: option.splits kind.splits)
    show ?thesis
      using Cons.IH [OF inv] step Some
      by (simp add: resolved_Cons resolves_all_def)
  qed
qed


lemma embedded_Nil [simp]: "embedded e page_url [] = []"
  by (simp add: embedded_def)

lemma embedded_Cons:
  "embedded e page_url (src # srcs) =
     (case urljoin e page_url src of
        None \<Rightarrow> []
      | Some embed_url \<Rightarrow>
          (case scrape_embedded_video e embed_url page_url of
             None \<Rightarrow> []
           | Some v \<Rightarrow> if v = [] then [] else [v]) @ embedded e page_url srcs)"
  by (simp add: embedded_def resolved_Cons split: option.splits)

lemma scan_iframes_first_seen:
  "videos m = first_seen pre \<Longrightarrow>
   videos (fst (scan_iframes e page_url srcs m)) = first_seen (pre @ embedded e page_url srcs) \<and>
   images (fst (scan_iframes e page_url srcs m)) = images m \<and>
   gifs (fst (scan_iframes e page_url srcs m)) = gifs m"
proof (induction srcs arbitrary: m pre)
  case Nil
  then show ?case by simp
next
  case (Cons src srcs)
  show ?case
  proof (cases "urljoin e page_url src")
    case None
    with Cons.prems show ?thesis by (simp add: embedded_Cons)
  next
    case emb: (Some embed_url)
    show ?thesis
    proof (cases "scrape_embedded_video e embed_url page_url")
      case None
      with emb Cons.IH [OF Cons.prems] show ?thesis by (simp add: embedded_Cons)
    next
      case (Some v)
      define m' where
        "m' = (if v \<noteq> [] \<and> v \<notin> set (videos m) then m\<lparr>videos := videos m @ [v]\<rparr> else m)"
      have inv: "videos m' = first_seen (pre @ (if v = [] then [] else [v]))"
        using Cons.prems by (simp add: m'_def first_seen_snoc)
      have same: "images m' = images m" "gifs m' = gifs m"
        by (simp_all add: m'_def)
      show ?thesis
        using Cons.IH [OF inv] emb Some same
        by (simp add: embedded_Cons m'_def)
    qed
  qed
qed

lemma collect_media_found:
  "images (fst (collect_media e page_url)) = first_seen (found e page_url Image) \<and>
   videos (fst (collect_media e page_url)) = first_seen (found e page_url Video) \<and>
   gifs (fst (collect_media e page_url)) = first_seen (found e page_url Gif)"
proof (cases "http_get e page_url None")
  case None
  then show ?thesis by (simp add: collect_media_def found_def no_media_def)
next
  case (Some r)
  show ?thesis
  proof (cases "status_ok r")
    case False
    with Some show ?thesis by (simp add: collect_media_def found_def no_media_def)
  next
    case True
    let ?links = "candidate_links (soup r)"
    obtain m1 raised where scan: "scan_links e page_url ?links no_media = (m1, raised)"
      by (cases "scan_links e page_url ?links no_media")
    have m1: "images m1 = first_seen (filter (\<lambda>u. media_kind e u = Some Image) (resolved e page_url ?links))"
      "gifs m1 = first_seen (filter (\<lambda>u. media_kind e u = Some Gif) (resolved e page_url ?links))"
      "videos m1 = first_seen (filter (\<lambda>u. media_kind e u = Some Video) (resolved e page_url ?links))"
      "raised = (\<not> resolves_all e page_url ?links)"
      using scan_links_first_seen [of no_media e "[]" page_url ?links] scan
      by (simp_all add: no_media_def)
    show ?thesis
    proof (cases raised)
      case True
      with Some \<open>status_ok r\<close> scan m1 show ?thesis
        by (simp add: collect_media_def found_def)
    next
      case False
      have "fst (collect_media e page_url) = fst (scan_iframes e page_url (iframe_srcs (soup r)) m1)"
        using Some \<open>status_ok r\<close> scan False
        by (simp add: collect_media_def split: prod.splits bool.splits)
      with scan_iframes_first_seen [OF m1(3), of e page_url "iframe_srcs (soup r)"]
        Some \<open>status_ok r\<close> m1 False
      show ?thesis by (simp add: found_def)
    qed
  qed
qed

text \<open>
  Claim C7. For every page, the image, video and gif lists the extractor returns are the
  first 50, 20 and 10 of the URLs of that kind the page offers, without repetitions and
  in the order of first discovery: they have at most 50, 20 and 10 entries, no entry
  twice, and a page offering at least 50 different images (1000, say) returns exactly 50,
  the first discovered. This holds also when the fetch fails (all lists empty) or an
  exception ends the scan early (the lists hold what was found until then).
\<close>

theorem page_media_capped:
  "images (fst (extract_media_from_page e page_url))
     = take 50 (first_seen (found e page_url Image)) \<and>
   videos (fst (extract_media_from_page e page_url))
     = take 20 (first_seen (found e page_url Video)) \<and>
   gifs (fst (extract_media_from_page e page_url))
     = take 10 (first_seen (found e page_url Gif)) \<and>
   length (images (fst (extract_media_from_page e page_url))) \<le> 50 \<and>
   length (videos (fst (extract_media_from_page e page_url))) \<le> 20 \<and>
   length (gifs (fst (extract_media_from_page e page_url))) \<le> 10 \<and>
   distinct (images (fst (extract_media_from_page e page_url))) \<and>
   distinct (videos (fst (extract_media_from_page e page_url))) \<and>
   distinct (gifs (fst (extract_media_from_page e page_url))) \<and>
   length (images (fst (extract_media_from_page e page_url)))
     = min 50 (card (set (found e page_url Image)))"
  using collect_media_found [of e page_url]
  by (simp add: extract_media_from_page_def case_prod_unfold length_first_seen min.commute)

text \<open>A page that offers 1000 different images returns 50 of them.\<close>

lemma thousand_images_give_fifty:
  "card (set (found e page_url Image)) = 1000 \<Longrightarrow>
   length (images (fst (extract_media_from_page e page_url))) = 50"
  using collect_media_found [of e page_url]
  by (simp add: extract_media_from_page_def case_prod_unfold length_first_seen)

section \<open>What a job touches\<close>

lemmas extraction_defs = extract_media_from_page_def collect_media_def candidate_links_def
  iframe_srcs_def add_link_def tag_get_def scrape_embedded_video_def embed_patterns_def
  next_page_def find_next_tag_def no_media_def

lemmas delivery_defs = send_images_def send_videos_def image_item_def
  send_with_retry_def media_group_kwargs_def video_kwargs_def
  rewind_def consume_def emit_def poll_def Let_def

lemma page_fetches_append [simp]: "page_fetches (a @ b) = page_fetches a @ page_fetches b"
  by (induction a rule: page_fetches.induct) simp_all

lemma download_requests_append [simp]:
  "download_requests (a @ b) = download_requests a @ download_requests b"
  by (induction a rule: download_requests.induct) simp_all

lemma sent_contents_append [simp]: "sent_contents (a @ b) = sent_contents a @ sent_contents b"
  by (induction a rule: sent_contents.induct) simp_all

lemma group_contents_simps [simp]:
  "group_contents [] = []" "group_contents (p # g) = payload_content p @ group_contents g"
  "group_contents (g @ h) = group_contents g @ group_contents h"
  by (simp_all add: group_contents_def)

lemma payload_content_moved [simp]:
  "payload_content (seek0 p) = payload_content p"
  "payload_content (read_to n p) = payload_content p"
  by (cases p; simp)+

lemma group_contents_moved [simp]:
  "group_contents (map seek0 g) = group_contents g"
  "group_contents (map (read_to n) g) = group_contents g"
  by (induction g) simp_all

lemma group_contents_other_moved [simp]:
  "group_contents (map (snd \<circ> (\<lambda>(k, v). (k, read_to n v))) kvs) = group_contents (map snd kvs)"
  by (induction kvs) auto

lemma kwargs_contents_moved [simp]:
  "kwargs_contents (rewind kw) = kwargs_contents kw"
  "kwargs_contents (consume n kw) = kwargs_contents kw"
  by (simp_all add: kwargs_contents_def rewind_def consume_def split: option.splits)

lemma fetched_mono: "D \<subseteq> D' \<Longrightarrow> fetched e D \<subseteq> fetched e D'"
  unfolding fetched_def by blast

lemma delivers_only_refl [simp]: "delivers_only e D w w"
  by (simp add: delivers_only_def)

lemma delivers_only_trans:
  "delivers_only e D w w1 \<Longrightarrow> delivers_only e D w1 w2 \<Longrightarrow> delivers_only e D w w2"
  unfolding delivers_only_def by auto

lemma delivers_only_mono:
  "delivers_only e D w w' \<Longrightarrow> D \<subseteq> D' \<Longrightarrow> delivers_only e D' w w'"
  using fetched_mono [of D D' e] unfolding delivers_only_def by auto

lemma delivers_only_poll [simp]: "delivers_only e D w (poll w)"
  by (simp add: delivers_only_def)

lemma delivers_only_quiet [simp]:
  "delivers_only e D w (emit (Sleep t) w)" "delivers_only e D w (emit (Status st) w)"
  by (simp_all add: delivers_only_def)

lemma send_loop_quiet:
  "download_requests (events (snd (send_loop e as kw w))) = download_requests (events w) \<and>
   page_fetches (events (snd (send_loop e as kw w))) = page_fetches (events w) \<and>
   set (sent_contents (events (snd (send_loop e as kw w))))
     \<subseteq> set (sent_contents (events w)) \<union> set (kwargs_contents kw)"
proof (induction as arbitrary: kw w)
  case Nil
  then show ?case by simp
next
  case (Cons a as)
  have ih: "set (sent_contents (events (snd (send_loop e as (consume n (rewind kw)) w1))))
      \<subseteq> set (sent_contents (events w1)) \<union> set (kwargs_contents kw)" for n w1
    using Cons.IH [of "consume n (rewind kw)" w1] by simp
  show ?case
    using Cons.IH ih
    by (cases "fst (channel e (sends w))")
       (auto simp add: Let_def dest!: subsetD [OF ih])
qed

lemma delivers_only_send:
  "set (kwargs_contents kw) \<subseteq> fetched e D \<Longrightarrow>
   delivers_only e D w (snd (send_with_retry e kw w))"
  using send_loop_quiet [of e "[0, 1, 2]" kw w] send_loop_keeps [of e "[0, 1, 2]" kw w]
  by (auto simp add: delivers_only_def send_with_retry_def simp del: send_loop.simps)


lemma image_item_unfold:
  "image_item e referer u g w =
     (let ok = (download_media_as_bytes e u (Some referer) \<noteq> None);
          w1 = emit (Download u (Some referer) ok) w;
          w2 = (if ok then w1\<lparr>ledger := insert u (ledger w1)\<rparr> else w1);
          g1 = g @ ready_item e referer u
      in if ready_item e referer u \<noteq> [] \<and> length g1 = 10
         then (let sent = send_with_retry e (media_group_kwargs g1) w2
               in (case fst sent of Inl x \<Rightarrow> Inl x | Inr _ \<Rightarrow> Inr [], snd sent))
         else (Inr g1, w2))"
  by (simp add: image_item_def ready_item_def Let_def split: option.splits)

lemma ready_item_fetched:
  "u \<in> D \<Longrightarrow> set (group_contents (ready_item e referer u)) \<subseteq> fetched e D"
  by (auto simp: ready_item_def fetched_def split: option.splits if_splits)

lemma kwargs_contents_media_group [simp]:
  "kwargs_contents (media_group_kwargs g) = group_contents g"
  by (simp add: kwargs_contents_def media_group_kwargs_def)

lemma delivers_only_image_item:
  assumes g: "set (group_contents g) \<subseteq> fetched e D" and u: "u \<in> D"
  shows "delivers_only e D w (snd (image_item e referer u g w)) \<and>
         (\<forall>g'. fst (image_item e referer u g w) = Inr g' \<longrightarrow>
                set (group_contents g') \<subseteq> fetched e D)"
proof -
  define ok where "ok = (download_media_as_bytes e u (Some referer) \<noteq> None)"
  define w2 where
    "w2 = (if ok then (emit (Download u (Some referer) ok) w)\<lparr>ledger := insert u (ledger w)\<rparr>
           else emit (Download u (Some referer) ok) w)"
  define g1 where "g1 = g @ ready_item e referer u"
  have mark: "delivers_only e D w w2"
    using u by (auto simp: w2_def delivers_only_def)
  have g1: "set (group_contents g1) \<subseteq> fetched e D"
    using g ready_item_fetched [OF u, of e referer] by (auto simp: g1_def)
  have sent: "delivers_only e D w (snd (send_with_retry e (media_group_kwargs g1) w2))"
    using delivers_only_trans [OF mark delivers_only_send [of "media_group_kwargs g1" e D w2]] g1
    by simp
  show ?thesis
    using mark g1 sent
    by (auto simp: image_item_unfold Let_def ok_def w2_def g1_def split: sum.splits)
qed

lemma delivers_only_images_loop:
  "set (group_contents g) \<subseteq> fetched e D \<Longrightarrow> set urls \<subseteq> D \<Longrightarrow>
   delivers_only e D w (snd (images_loop e chat referer urls g w)) \<and>
   (\<forall>g'. fst (images_loop e chat referer urls g w) = Inr g' \<longrightarrow>
          set (group_contents g') \<subseteq> fetched e D)"
proof (induction urls arbitrary: g w)
  case Nil
  then show ?case by simp
next
  case (Cons u us)
  show ?case
  proof (cases "cancel_flag e chat (polls w)")
    case True
    then show ?thesis by simp
  next
    case False
    obtain r w1 where step: "image_item e referer u g (poll w) = (r, w1)"
      by (cases "image_item e referer u g (poll w)")
    have u: "u \<in> D" using Cons.prems(2) by simp
    have item: "delivers_only e D (poll w) w1"
      "\<forall>g'. r = Inr g' \<longrightarrow> set (group_contents g') \<subseteq> fetched e D"
      using delivers_only_image_item [OF Cons.prems(1) u, of "poll w" referer] step by simp_all
    have one: "delivers_only e D w w1"
      using delivers_only_trans [OF delivers_only_poll item(1)] .
    show ?thesis
    proof (cases r)
      case (Inl x)
      with False step one show ?thesis by simp
    next
      case (Inr g')
      have g': "set (group_contents g') \<subseteq> fetched e D" using item(2) Inr by simp
      have us: "set us \<subseteq> D" using Cons.prems(2) by simp
      have rest: "delivers_only e D w1 (snd (images_loop e chat referer us g' w1))"
        "\<forall>g''. fst (images_loop e chat referer us g' w1) = Inr g'' \<longrightarrow>
               set (group_contents g'') \<subseteq> fetched e D"
        using Cons.IH [OF g' us, of w1] by simp_all
      have eq: "images_loop e chat referer (u # us) g w = images_loop e chat referer us g' w1"
        using False step Inr by simp
      show ?thesis
        unfolding eq using delivers_only_trans [OF one rest(1)] rest(2) by simp
    qed
  qed
qed

lemma delivers_only_send_images:
  "delivers_only e (set urls) w (snd (send_images e urls referer chat w))"
proof -
  obtain r w1 where loop: "images_loop e chat referer urls [] w = (r, w1)"
    by (cases "images_loop e chat referer urls [] w")
  have inv: "delivers_only e (set urls) w w1"
    "\<forall>g'. r = Inr g' \<longrightarrow> set (group_contents g') \<subseteq> fetched e (set urls)"
    using delivers_only_images_loop [of "[]" e "set urls" urls w chat referer] loop by simp_all
  show ?thesis
  proof (cases r)
    case (Inl x)
    with loop inv show ?thesis by (simp add: send_images_def)
  next
    case (Inr g')
    have "delivers_only e (set urls) w1 (snd (send_with_retry e (media_group_kwargs g') w1))"
      using inv(2) Inr by (intro delivers_only_send) simp
    with loop inv(1) Inr show ?thesis
      by (auto simp: send_images_def intro: delivers_only_trans)
  qed
qed

lemma kwargs_contents_video [simp]:
  "kwargs_contents (video_kwargs e u b) = [buf_content b]"
  by (simp add: kwargs_contents_def video_kwargs_def)

lemma delivers_only_videos_loop:
  "set urls \<subseteq> D \<Longrightarrow> delivers_only e D w (snd (videos_loop e chat referer urls w))"
proof (induction urls arbitrary: w)
  case Nil
  then show ?case by simp
next
  case (Cons u us)
  have u: "u \<in> D" and us: "set us \<subseteq> D" using Cons.prems by simp_all
  have rest: "delivers_only e D w1 (snd (videos_loop e chat referer us w1))" for w1
    using Cons.IH [OF us, of w1] .
  show ?case
  proof (cases "cancel_flag e chat (polls w)")
    case True
    then show ?thesis by simp
  next
    case False
    show ?thesis
    proof (cases "download_media_as_bytes e u (Some referer)")
      case None
      have dl: "delivers_only e D w (emit (Download u (Some referer) False) (poll w))"
        using u by (auto simp: delivers_only_def)
      show ?thesis
        using False None delivers_only_trans [OF dl rest] by simp
    next
      case (Some b)
      define w2 where
        "w2 = (emit (Download u (Some referer) True) (poll w))
                \<lparr>ledger := insert u (ledger (emit (Download u (Some referer) True) (poll w)))\<rparr>"
      have mark: "delivers_only e D w w2"
        using u by (auto simp: w2_def delivers_only_def)
      have "buf_content b \<in> fetched e D"
        using u Some by (auto simp: fetched_def)
      then have sent: "delivers_only e D w2 (snd (send_with_retry e (video_kwargs e u b) w2))"
        by (intro delivers_only_send) simp
      have eq: "videos_loop e chat referer (u # us) w =
          videos_loop e chat referer us (snd (send_with_retry e (video_kwargs e u b) w2))"
        using False Some by (simp add: w2_def Let_def)
      show ?thesis
        unfolding eq
        using delivers_only_trans [OF delivers_only_trans [OF mark sent] rest] .
    qed
  qed
qed

lemma delivers_only_send_videos:
  "delivers_only e (set urls) w (snd (send_videos e urls referer chat w))"
  by (simp add: send_videos_def delivers_only_videos_loop)


lemma scrape_loop_step:
  "\<not> cancel_flag e chat (polls w) \<Longrightarrow>
   \<exists>w2 w3.
     delivers_only e (deliverable e (with_scheme u))
       (emit (PageFetch (with_scheme u))
          (emit (Status (Processing (i + 1) n (take 50 (with_scheme u)))) (poll w))) w2 \<and>
     delivers_only e (deliverable e (with_scheme u)) w2 w3 \<and>
     (scrape_loop e chat n i (u # us) w = (Inl CancelledError, w2) \<or>
      scrape_loop e chat n i (u # us) w = (Inl Failure, w2) \<or>
      scrape_loop e chat n i (u # us) w = (Inl CancelledError, w3) \<or>
      scrape_loop e chat n i (u # us) w = (Inl Failure, w3) \<or>
      scrape_loop e chat n i (u # us) w =
        scrape_loop e chat n (i + 1) us (if i + 1 < n then emit (Sleep 10) w3 else w3))"
proof -
  assume nc: "\<not> cancel_flag e chat (polls w)"
  define pu where "pu = with_scheme u"
  define w1 where
    "w1 = emit (PageFetch pu) (emit (Status (Processing (i + 1) n (take 50 pu))) (poll w))"
  define m where "m = fst (extract_media_from_page e pu)"
  define imgs where "imgs = filter (\<lambda>x. x \<notin> ledger w1) (images m)"
  define vids where "vids = filter (\<lambda>x. x \<notin> ledger w1) (videos m)"
  define s2 where "s2 = (if imgs \<noteq> [] then send_images e imgs pu chat w1 else (Inr (), w1))"
  define s3 where
    "s3 = (if vids \<noteq> [] then send_videos e vids pu chat (snd s2) else (Inr (), snd s2))"
  have d2: "delivers_only e (deliverable e pu) w1 (snd s2)"
    using delivers_only_send_images [of e imgs w1 pu chat]
    by (auto simp: s2_def imgs_def m_def deliverable_def intro: delivers_only_mono)
  have d3: "delivers_only e (deliverable e pu) (snd s2) (snd s3)"
    using delivers_only_send_videos [of e vids "snd s2" pu chat]
    by (auto simp: s3_def vids_def m_def deliverable_def intro: delivers_only_mono)
  have unfold: "scrape_loop e chat n i (u # us) w =
      (case fst s2 of
         Inl x \<Rightarrow> (Inl x, snd s2)
       | Inr _ \<Rightarrow>
           (case fst s3 of
              Inl x \<Rightarrow> (Inl x, snd s3)
            | Inr _ \<Rightarrow>
                scrape_loop e chat n (i + 1) us
                  (if i + 1 < n then emit (Sleep 10) (snd s3) else snd s3)))"
    using nc unfolding s3_def s2_def vids_def imgs_def m_def w1_def pu_def
    by (simp only: scrape_loop.simps if_False Let_def)
  have "scrape_loop e chat n i (u # us) w = (Inl CancelledError, snd s2) \<or>
        scrape_loop e chat n i (u # us) w = (Inl Failure, snd s2) \<or>
        scrape_loop e chat n i (u # us) w = (Inl CancelledError, snd s3) \<or>
        scrape_loop e chat n i (u # us) w = (Inl Failure, snd s3) \<or>
        scrape_loop e chat n i (u # us) w =
          scrape_loop e chat n (i + 1) us
            (if i + 1 < n then emit (Sleep 10) (snd s3) else snd s3)"
  proof (cases "fst s2")
    case (Inl x)
    then show ?thesis unfolding unfold by (cases x) simp_all
  next
    case s2ok: (Inr y)
    show ?thesis
    proof (cases "fst s3")
      case (Inl x)
      with s2ok show ?thesis unfolding unfold by (cases x) simp_all
    next
      case (Inr z)
      with s2ok show ?thesis unfolding unfold by simp
    qed
  qed
  with d2 d3 show ?thesis
    unfolding pu_def w1_def by blast
qed

lemma scrape_loop_pages:
  "\<exists>k. ledger w \<subseteq> ledger (snd (scrape_loop e chat n i us w)) \<and>
       ledger (snd (scrape_loop e chat n i us w))
         \<subseteq> ledger w \<union> (\<Union>u \<in> set us. deliverable e (with_scheme u)) \<and>
       set (download_requests (events (snd (scrape_loop e chat n i us w))))
         \<subseteq> set (download_requests (events w)) \<union> (\<Union>u \<in> set us. deliverable e (with_scheme u)) \<and>
       set (sent_contents (events (snd (scrape_loop e chat n i us w))))
         \<subseteq> set (sent_contents (events w))
           \<union> fetched e (\<Union>u \<in> set us. deliverable e (with_scheme u)) \<and>
       page_fetches (events (snd (scrape_loop e chat n i us w)))
         = page_fetches (events w) @ take k (map with_scheme us)"
proof (induction us arbitrary: i w)
  case Nil
  then show ?case by simp
next
  case (Cons u us)
  show ?case
  proof (cases "cancel_flag e chat (polls w)")
    case True
    then have "snd (scrape_loop e chat n i (u # us) w) = poll w" by simp
    then show ?thesis by (intro exI [of _ 0]) simp
  next
    case False
    define w1 where
      "w1 = emit (PageFetch (with_scheme u))
              (emit (Status (Processing (i + 1) n (take 50 (with_scheme u)))) (poll w))"
    obtain w2 w3 where st:
      "delivers_only e (deliverable e (with_scheme u)) w1 w2"
      "delivers_only e (deliverable e (with_scheme u)) w2 w3"
      "scrape_loop e chat n i (u # us) w = (Inl CancelledError, w2) \<or>
       scrape_loop e chat n i (u # us) w = (Inl Failure, w2) \<or>
       scrape_loop e chat n i (u # us) w = (Inl CancelledError, w3) \<or>
       scrape_loop e chat n i (u # us) w = (Inl Failure, w3) \<or>
       scrape_loop e chat n i (u # us) w =
         scrape_loop e chat n (i + 1) us (if i + 1 < n then emit (Sleep 10) w3 else w3)"
      using scrape_loop_step [OF False, of u i n us] unfolding w1_def by blast
    have w1: "ledger w1 = ledger w" "download_requests (events w1) = download_requests (events w)"
      "sent_contents (events w1) = sent_contents (events w)"
      "page_fetches (events w1) = page_fetches (events w) @ [with_scheme u]"
      by (simp_all add: w1_def)
    have d13: "delivers_only e (deliverable e (with_scheme u)) w1 w3"
      using st(1,2) by (rule delivers_only_trans)
    define w4 where "w4 = (if i + 1 < n then emit (Sleep 10) w3 else w3)"
    have d14: "delivers_only e (deliverable e (with_scheme u)) w1 w4"
      using d13 by (auto simp: w4_def delivers_only_def)
    obtain k where ih:
      "ledger w4 \<subseteq> ledger (snd (scrape_loop e chat n (i + 1) us w4))"
      "ledger (snd (scrape_loop e chat n (i + 1) us w4))
         \<subseteq> ledger w4 \<union> (\<Union>u \<in> set us. deliverable e (with_scheme u))"
      "set (download_requests (events (snd (scrape_loop e chat n (i + 1) us w4))))
         \<subseteq> set (download_requests (events w4)) \<union> (\<Union>u \<in> set us. deliverable e (with_scheme u))"
      "set (sent_contents (events (snd (scrape_loop e chat n (i + 1) us w4))))
         \<subseteq> set (sent_contents (events w4))
           \<union> fetched e (\<Union>u \<in> set us. deliverable e (with_scheme u))"
      "page_fetches (events (snd (scrape_loop e chat n (i + 1) us w4)))
         = page_fetches (events w4) @ take k (map with_scheme us)"
      using Cons.IH [where i = "i + 1" and w = w4] by blast
    let ?D = "\<Union>x \<in> set (u # us). deliverable e (with_scheme x)"
    have m12: "delivers_only e ?D w1 w2"
      using st(1) by (rule delivers_only_mono) auto
    have m13: "delivers_only e ?D w1 w3"
      using d13 by (rule delivers_only_mono) auto
    have m14: "delivers_only e ?D w1 w4"
      using d14 by (rule delivers_only_mono) auto
    have sub: "fetched e (\<Union>u \<in> set us. deliverable e (with_scheme u)) \<subseteq> fetched e ?D"
      by (rule fetched_mono) auto
    consider (a) "snd (scrape_loop e chat n i (u # us) w) = w2"
      | (b) "snd (scrape_loop e chat n i (u # us) w) = w3"
      | (c) "snd (scrape_loop e chat n i (u # us) w) = snd (scrape_loop e chat n (i + 1) us w4)"
      using st(3) unfolding w4_def by auto
    then show ?thesis
    proof cases
      case a
      with m12 w1 show ?thesis
        by (intro exI [of _ 1]) (auto simp: delivers_only_def)
    next
      case b
      with m13 w1 show ?thesis
        by (intro exI [of _ 1]) (auto simp: delivers_only_def)
    next
      case c
      have "ledger w \<subseteq> ledger (snd (scrape_loop e chat n (i + 1) us w4))"
        using m14 w1 ih(1) by (auto simp: delivers_only_def)
      moreover have "ledger (snd (scrape_loop e chat n (i + 1) us w4)) \<subseteq> ledger w \<union> ?D"
        using m14 w1 ih(2) by (auto simp: delivers_only_def)
      moreover have "set (download_requests (events (snd (scrape_loop e chat n (i + 1) us w4))))
          \<subseteq> set (download_requests (events w)) \<union> ?D"
        using m14 w1 ih(3) by (auto simp: delivers_only_def)
      moreover have "set (sent_contents (events (snd (scrape_loop e chat n (i + 1) us w4))))
          \<subseteq> set (sent_contents (events w)) \<union> fetched e ?D"
      proof -
        have "set (sent_contents (events w4)) \<subseteq> set (sent_contents (events w)) \<union> fetched e ?D"
          using m14 w1 by (simp add: delivers_only_def)
        with ih(4) sub show ?thesis by blast
      qed
      moreover have "page_fetches (events (snd (scrape_loop e chat n (i + 1) us w4)))
          = page_fetches (events w) @ take (Suc k) (map with_scheme (u # us))"
        using m14 w1 ih(5) by (simp add: delivers_only_def)
      ultimately show ?thesis unfolding c by blast
    qed
  qed
qed

lemma process_media_scraper_world:
  "ledger (snd (process_media_scraper e chat urls w))
     = ledger (snd (scrape_loop e chat (length urls) 0 urls w)) \<and>
   download_requests (events (snd (process_media_scraper e chat urls w)))
     = download_requests (events (snd (scrape_loop e chat (length urls) 0 urls w))) \<and>
   sent_contents (events (snd (process_media_scraper e chat urls w)))
     = sent_contents (events (snd (scrape_loop e chat (length urls) 0 urls w))) \<and>
   page_fetches (events (snd (process_media_scraper e chat urls w)))
     = page_fetches (events (snd (scrape_loop e chat (length urls) 0 urls w)))"
  by (simp add: process_media_scraper_def split: prod.splits sum.splits exn.splits)

lemma job_outcome_of_loop:
  "fst (process_media_scraper e chat urls w) =
     (case fst (scrape_loop e chat (length urls) 0 urls w) of
        Inr _ \<Rightarrow> Completed
      | Inl CancelledError \<Rightarrow> Cancelled
      | Inl Failure \<Rightarrow> Failed)"
  by (simp add: process_media_scraper_def split: prod.splits sum.splits exn.splits)

lemma ledger_only_grows:
  "ledger w \<subseteq> ledger (snd (process_media_scraper e chat urls w))"
  using scrape_loop_pages [of w e chat "length urls" 0 urls]
    process_media_scraper_world [of e chat urls w]
  by auto


section \<open>Pagination\<close>

lemma next_page_returned:
  "snd (snd (extract_media_from_page e page_url)) =
     (case http_get e page_url None of
        None \<Rightarrow> None
      | Some r \<Rightarrow>
          if status_ok r \<and> resolves_all e page_url (candidate_links (soup r)) \<and>
             snd (scan_iframes e page_url (iframe_srcs (soup r))
                    (fst (scan_links e page_url (candidate_links (soup r)) no_media))) = False
          then next_page e page_url (soup r) else None)"
proof (cases "http_get e page_url None")
  case None
  then show ?thesis by (simp add: extract_media_from_page_def collect_media_def)
next
  case (Some r)
  obtain m1 raised where scan:
    "scan_links e page_url (candidate_links (soup r)) no_media = (m1, raised)"
    by (cases "scan_links e page_url (candidate_links (soup r)) no_media")
  have raised: "raised = (\<not> resolves_all e page_url (candidate_links (soup r)))"
    using scan_links_first_seen [of no_media e "[]" page_url "candidate_links (soup r)"] scan
    by (simp add: no_media_def)
  obtain m2 raised2 where fr:
    "scan_iframes e page_url (iframe_srcs (soup r)) m1 = (m2, raised2)"
    by (cases "scan_iframes e page_url (iframe_srcs (soup r)) m1")
  show ?thesis
    using Some scan raised fr
    by (cases raised; cases raised2)
       (simp_all add: extract_media_from_page_def collect_media_def)
qed

lemma scan_iframes_raised:
  "snd (scan_iframes e page_url srcs m) = (\<not> resolves_all e page_url srcs)"
  by (induction srcs arbitrary: m) (simp_all add: resolves_all_def split: option.splits)

text \<open>The text lookup of the program (strip, lower, compare) finds exactly the texts
  that say "Next", and each lookup takes the first anchor in document order.\<close>

lemma lower_char_eq:
  "lower_char c = d \<Longrightarrow> c = d \<or> (c, d) \<in> set (zip upper_chars lower_chars)"
  by (auto simp: lower_char_def split: option.splits dest: map_of_SomeD)

lemma lower_char_next:
  "(lower_char c = CHR ''n'') = (c \<in> set ''Nn'')"
  "(lower_char c = CHR ''e'') = (c \<in> set ''Ee'')"
  "(lower_char c = CHR ''x'') = (c \<in> set ''Xx'')"
  "(lower_char c = CHR ''t'') = (c \<in> set ''Tt'')"
proof -
  have up: "lower_char (CHR ''N'') = CHR ''n''" "lower_char (CHR ''E'') = CHR ''e''"
    "lower_char (CHR ''X'') = CHR ''x''" "lower_char (CHR ''T'') = CHR ''t''"
    "lower_char (CHR ''n'') = CHR ''n''" "lower_char (CHR ''e'') = CHR ''e''"
    "lower_char (CHR ''x'') = CHR ''x''" "lower_char (CHR ''t'') = CHR ''t''"
    by (simp_all add: lower_char_def upper_chars_def lower_chars_def)
  show "(lower_char c = CHR ''n'') = (c \<in> set ''Nn'')"
    using lower_char_eq [of c "CHR ''n''"] up
    by (auto simp: upper_chars_def lower_chars_def)
  show "(lower_char c = CHR ''e'') = (c \<in> set ''Ee'')"
    using lower_char_eq [of c "CHR ''e''"] up
    by (auto simp: upper_chars_def lower_chars_def)
  show "(lower_char c = CHR ''x'') = (c \<in> set ''Xx'')"
    using lower_char_eq [of c "CHR ''x''"] up
    by (auto simp: upper_chars_def lower_chars_def)
  show "(lower_char c = CHR ''t'') = (c \<in> set ''Tt'')"
    using lower_char_eq [of c "CHR ''t''"] up
    by (auto simp: upper_chars_def lower_chars_def)
qed

lemma four_chars: "length w = 4 \<Longrightarrow> \<exists>c0 c1 c2 c3. w = [c0, c1, c2, c3]"
  by (auto simp: numeral_eq_Suc length_Suc_conv)

lemma lower_is_next:
  "(lower w = ''next'') =
     (length w = 4 \<and> w ! 0 \<in> set ''Nn'' \<and> w ! 1 \<in> set ''Ee'' \<and>
      w ! 2 \<in> set ''Xx'' \<and> w ! 3 \<in> set ''Tt'')"
proof
  assume "lower w = ''next''"
  then obtain c0 c1 c2 c3 where w: "w = [c0, c1, c2, c3]"
    and l: "lower_char c0 = CHR ''n''" "lower_char c1 = CHR ''e''"
      "lower_char c2 = CHR ''x''" "lower_char c3 = CHR ''t''"
    by (auto simp: lower_def map_eq_Cons_conv)
  from l show "length w = 4 \<and> w ! 0 \<in> set ''Nn'' \<and> w ! 1 \<in> set ''Ee'' \<and>
      w ! 2 \<in> set ''Xx'' \<and> w ! 3 \<in> set ''Tt''"
    unfolding w lower_char_next by simp
next
  assume r: "length w = 4 \<and> w ! 0 \<in> set ''Nn'' \<and> w ! 1 \<in> set ''Ee'' \<and>
      w ! 2 \<in> set ''Xx'' \<and> w ! 3 \<in> set ''Tt''"
  then obtain c0 c1 c2 c3 where w: "w = [c0, c1, c2, c3]" using four_chars by blast
  have "lower_char c0 = CHR ''n''" "lower_char c1 = CHR ''e''"
    "lower_char c2 = CHR ''x''" "lower_char c3 = CHR ''t''"
    using r unfolding w lower_char_next by simp_all
  then show "lower w = ''next''" by (simp add: w lower_def)
qed


lemma next_letters_not_space:
  "c \<in> set ''Nn'' \<Longrightarrow> \<not> is_space c" "c \<in> set ''Tt'' \<Longrightarrow> \<not> is_space c"
  by (auto simp: is_space_def)

lemma says_next_iff: "says_next s = (lower (strip s) = ''next'')"
proof
  assume "says_next s"
  then obtain a w b where s: "s = a @ w @ b" and ab: "list_all is_space a" "list_all is_space b"
    and w: "length w = 4" "w ! 0 \<in> set ''Nn''" "w ! 1 \<in> set ''Ee''"
      "w ! 2 \<in> set ''Xx''" "w ! 3 \<in> set ''Tt''"
    unfolding says_next_def by blast
  obtain c0 c1 c2 c3 where w4: "w = [c0, c1, c2, c3]" using four_chars [OF w(1)] by blast
  have "w \<noteq> []" "\<not> is_space (hd w)" "\<not> is_space (last w)"
    using w(2,5) next_letters_not_space unfolding w4 by simp_all
  then have "strip s = w" unfolding s using ab by (intro strip_core)
  then show "lower (strip s) = ''next''" using w by (simp add: lower_is_next)
next
  assume l: "lower (strip s) = ''next''"
  obtain a b where "s = a @ strip s @ b" "list_all is_space a" "list_all is_space b"
    using strip_sandwich [of s] by blast
  with l show "says_next s"
    unfolding says_next_def lower_is_next by blast
qed

lemma find_filter_hd:
  "find P xs = (case filter P xs of [] \<Rightarrow> None | x # _ \<Rightarrow> Some x)"
  by (induction xs) simp_all

lemma find_next_tag_rule:
  "find_next_tag page =
     (case anchors_with_class page of
        t # _ \<Rightarrow> Some t
      | [] \<Rightarrow>
          (case anchors_with_rel page of
             t # _ \<Rightarrow> Some t
           | [] \<Rightarrow> (case anchors_saying_next page of t # _ \<Rightarrow> Some t | [] \<Rightarrow> None)))"
proof -
  have same: "(\<lambda>t. tname t = ''a'' \<and> (case tstring t of None \<Rightarrow> False
                                        | Some s \<Rightarrow> lower (strip s) = ''next''))
      = (\<lambda>t. tname t = ''a'' \<and> (\<exists>s. tstring t = Some s \<and> says_next s))"
    by (auto simp: says_next_iff fun_eq_iff split: option.splits)
  show ?thesis
    unfolding find_next_tag_def find_filter_hd same
      anchors_with_class_def anchors_with_rel_def anchors_saying_next_def
    by (simp split: list.splits)
qed


text \<open>
  Claim C10. The extractor returns the next-page URL as the third component of its
  result (the second is always empty): when the page is fetched and no link or frame
  source makes \<^verbatim>\<open>urljoin\<close> raise, it is the \<^verbatim>\<open>href\<close> of the first anchor with the class
  \<^verbatim>\<open>pageNav-jump--next\<close>, else of the first anchor with \<^verbatim>\<open>rel="next"\<close>, else of the first
  anchor whose text is exactly "Next" when case and surrounding whitespace are ignored,
  resolved against the page URL (nothing when that anchor has no \<^verbatim>\<open>href\<close>). The job loop
  never uses it: the pages a job fetches are the seed URLs (given a scheme), in order, up
  to the point where the job stops, and nothing else.
\<close>

theorem next_page_never_fetched:
  "fst (snd (extract_media_from_page e page_url)) = None \<and>
   snd (snd (extract_media_from_page e page_url)) =
     (case http_get e page_url None of
        None \<Rightarrow> None
      | Some r \<Rightarrow>
          if status_ok r \<and> resolves_all e page_url (candidate_links (soup r)) \<and>
             resolves_all e page_url (iframe_srcs (soup r))
          then (case (case anchors_with_class (soup r) of
                        t # _ \<Rightarrow> Some t
                      | [] \<Rightarrow>
                          (case anchors_with_rel (soup r) of
                             t # _ \<Rightarrow> Some t
                           | [] \<Rightarrow>
                               (case anchors_saying_next (soup r) of
                                  t # _ \<Rightarrow> Some t
                                | [] \<Rightarrow> None))) of
                  None \<Rightarrow> None
                | Some next_tag \<Rightarrow>
                    (case map_of (tattrs next_tag) ''href'' of
                       None \<Rightarrow> None
                     | Some href \<Rightarrow> if href = [] then None else urljoin e page_url href))
          else None) \<and>
   (\<exists>k. page_fetches (events (snd (process_media_scraper e chat urls w)))
          = page_fetches (events w) @ take k (map with_scheme urls))"
proof -
  have "fst (snd (extract_media_from_page e page_url)) = None"
    by (simp add: extract_media_from_page_def case_prod_unfold Let_def)
  moreover have "snd (snd (extract_media_from_page e page_url)) =
     (case http_get e page_url None of
        None \<Rightarrow> None
      | Some r \<Rightarrow>
          if status_ok r \<and> resolves_all e page_url (candidate_links (soup r)) \<and>
             resolves_all e page_url (iframe_srcs (soup r))
          then next_page e page_url (soup r) else None)"
    using next_page_returned [of e page_url]
    by (simp add: scan_iframes_raised split: option.splits)
  moreover have "\<exists>k. page_fetches (events (snd (process_media_scraper e chat urls w)))
          = page_fetches (events w) @ take k (map with_scheme urls)"
    using scrape_loop_pages [of w e chat "length urls" 0 urls]
      process_media_scraper_world [of e chat urls w]
    by auto
  ultimately show ?thesis
    by (simp add: next_page_def find_next_tag_rule tag_get_def split: option.splits)
qed

text \<open>On the page with three qualifying anchors the extractor returns the link of the
  anchor with the class, and a job on that page fetches the seed only.\<close>

lemma nav_anchors:
  "anchors_with_class nav_page
     = [\<lparr>tname = ''a'', tattrs = [(''href'', ''/by-class'')],
         tclass = [''pageNav-jump'', ''pageNav-jump--next''], trel = [], tstring = Some ''>''\<rparr>]"
  "anchors_with_class (take 2 nav_page) = []"
  "anchors_with_rel (take 2 nav_page)
     = [\<lparr>tname = ''a'', tattrs = [(''href'', ''/by-rel'')], tclass = [], trel = [''next''],
         tstring = Some ''2''\<rparr>]"
  "anchors_with_rel (take 1 nav_page) = []"
  "anchors_saying_next (take 1 nav_page)
     = [\<lparr>tname = ''a'', tattrs = [(''href'', ''/by-text'')], tclass = [], trel = [],
         tstring = Some (CHR 0xA0 # '' NEXT\<newline>'')\<rparr>]"
  by (simp_all add: anchors_with_class_def anchors_with_rel_def anchors_saying_next_def
        nav_page_def says_next_iff string_ops)

theorem next_page_never_fetched_witness:
  "snd (snd (extract_media_from_page nav_env ''http://s/p'')) = Some ''/by-class'' \<and>
   (\<exists>k. page_fetches (events (snd (process_media_scraper nav_env 1 [''http://s/p'']
            fresh_world))) = take k [''http://s/p''])"
proof -
  have page: "http_get nav_env ''http://s/p'' None
      = Some \<lparr>status_ok = True, body = [], soup = nav_page\<rparr>"
    by (simp add: nav_env_def quiet_env_def)
  have join: "urljoin nav_env = (\<lambda>b l. Some l)"
    by (simp add: nav_env_def quiet_env_def)
  have all: "resolves_all nav_env ''http://s/p'' links" for links
    by (simp add: resolves_all_def join list_all_iff)
  show ?thesis
    using next_page_never_fetched [of nav_env "''http://s/p''" 1 "[''http://s/p'']" fresh_world]
    by (simp add: page join all nav_anchors with_scheme_def startswith_def fresh_world_def)
qed


text \<open>The class lookup wins over the other two wherever its anchor stands; without it
  the \<^verbatim>\<open>rel\<close> lookup wins; the text lookup ignores case and surrounding whitespace.\<close>

lemma next_page_priority:
  "next_page quiet_env ''http://s/p'' nav_page = Some ''/by-class''"
  "next_page quiet_env ''http://s/p'' (take 2 nav_page) = Some ''/by-rel''"
  "next_page quiet_env ''http://s/p'' (take 1 nav_page) = Some ''/by-text''"
  by (simp_all add: next_page_def find_next_tag_def tag_get_def nav_page_def quiet_env_def
        string_ops)

text \<open>A page with a next-page link: the extractor returns the link, the job fetches the
  seed only.\<close>

lemma site_next_page:
  "extract_media_from_page site_env ''http://s/p1''
     = (\<lparr>images = [''http://h/a.jpg''], videos = [], gifs = []\<rparr>, None, Some ''http://s/p2'')"
  by (simp add: site_env_def quiet_env_def img_tag_def next_anchor_def extraction_defs
        string_ops)

lemma site_job_stays_on_seed:
  "page_fetches (events (snd (process_media_scraper site_env 1 [''http://s/p1''] fresh_world)))
     = [''http://s/p1'']"
proof -
  define e where "e = site_env"
  have lists: "extract_media_from_page e ''http://s/p1''
     = (\<lparr>images = [''http://h/a.jpg''], videos = [], gifs = []\<rparr>, None, Some ''http://s/p2'')"
    unfolding e_def by (rule site_next_page)
  have world: "cancel_flag e = (\<lambda>c n. False)" "channel e = (\<lambda>n. (Delivered, 0))"
    by (simp_all add: e_def site_env_def quiet_env_def)
  have got: "download_media_as_bytes e ''http://h/a.jpg'' (Some ''http://s/p1'')
     = Some \<lparr>buf_content = ''IMG'', buf_pos = 0\<rparr>"
    by (simp add: e_def site_env_def quiet_env_def download_media_as_bytes_def
          image_response_def)
  have "page_fetches (events (snd (process_media_scraper e 1 [''http://s/p1''] fresh_world)))
     = [''http://s/p1'']"
    by (simp add: process_media_scraper_def with_scheme_def lists world got fresh_world_def
          delivery_defs startswith_def endswith_def lower_def lower_char_ascii)
  then show ?thesis by (simp add: e_def)
qed


section \<open>Cancellation\<close>

text \<open>A raised flag seen before an item of a delivery operation ends the operation at
  once: no download, no send of the group collected so far, and the cancellation leaves
  the operation as an exception, which the job reports as cancelled.\<close>

lemma cancel_before_item:
  "cancel_flag e chat (polls w) \<Longrightarrow>
   images_loop e chat referer (u # us) g w = (Inl CancelledError, poll w) \<and>
   videos_loop e chat referer (u # us) w = (Inl CancelledError, poll w)"
  by simp

text \<open>A raised flag seen before a seed URL ends the loop by \<^verbatim>\<open>break\<close>, and the job goes on
  to report completion.\<close>

lemma cancel_before_seed:
  "cancel_flag e chat (polls w) \<Longrightarrow>
   fst (process_media_scraper e chat (u # us) w) = Completed"
  by (simp add: process_media_scraper_def)

lemma cancel_within_delivery_reports_cancelled:
  "process_media_scraper early_cancel_env 1 [''http://s/p1'', ''http://s/p3''] fresh_world =
     (Cancelled,
      \<lparr>ledger = {},
       events =
         [Status (Processing 1 2 ''http://s/p1''), PageFetch ''http://s/p1'', Status Canceled],
       polls = 2, sends = 0\<rparr>)"
proof -
  define e where "e = early_cancel_env"
  have lists: "extract_media_from_page e ''http://s/p1''
     = (\<lparr>images = [''http://h/a.jpg''], videos = [], gifs = []\<rparr>, None, Some ''http://s/p2'')"
    unfolding e_def early_cancel_env_def
    by (simp add: site_env_def quiet_env_def img_tag_def next_anchor_def extraction_defs
        string_ops)
  have world: "cancel_flag e = (\<lambda>c n. 1 \<le> n)"
    by (simp_all add: e_def early_cancel_env_def site_env_def quiet_env_def)
  have "process_media_scraper e 1 [''http://s/p1'', ''http://s/p3''] fresh_world =
     (Cancelled,
      \<lparr>ledger = {},
       events =
         [Status (Processing 1 2 ''http://s/p1''), PageFetch ''http://s/p1'', Status Canceled],
       polls = 2, sends = 0\<rparr>)"
    by (simp add: process_media_scraper_def with_scheme_def lists world fresh_world_def
          delivery_defs startswith_def)
  then show ?thesis by (simp add: e_def)
qed


text \<open>
  Claim C4. A cancel request observed before an item is said to stop the job with a
  cancelled outcome. With two seed URLs and a request that arrives while the image of
  the first page is being delivered, the flag is first seen by the check before the
  second seed URL: the loop breaks, the second page is neither fetched nor delivered, and
  the job reports "Scraping complete" where a cancellation seen inside a delivery
  operation reports "Canceled".
\<close>

theorem cancel_between_pages_reports_completed:
  "process_media_scraper late_cancel_env 1 [''http://s/p1'', ''http://s/p3''] fresh_world =
     (Completed,
      \<lparr>ledger = {''http://h/a.jpg''},
       events =
         [Status (Processing 1 2 ''http://s/p1''), PageFetch ''http://s/p1'',
          Download ''http://h/a.jpg'' (Some ''http://s/p1'') True,
          Send 0 one_photo Delivered, Sleep 2, Sleep 10,
          Status ScrapingComplete, Sleep 3],
       polls = 3, sends = 1\<rparr>)"
proof -
  define e where "e = late_cancel_env"
  have lists: "extract_media_from_page e ''http://s/p1''
     = (\<lparr>images = [''http://h/a.jpg''], videos = [], gifs = []\<rparr>, None, Some ''http://s/p2'')"
    unfolding e_def late_cancel_env_def
    by (simp add: site_env_def quiet_env_def img_tag_def next_anchor_def extraction_defs
        string_ops)
  have world: "cancel_flag e = (\<lambda>c n. 2 \<le> n)" "channel e = (\<lambda>n. (Delivered, 0))"
    by (simp_all add: e_def late_cancel_env_def site_env_def quiet_env_def)
  have got: "download_media_as_bytes e ''http://h/a.jpg'' (Some ''http://s/p1'')
     = Some \<lparr>buf_content = ''IMG'', buf_pos = 0\<rparr>"
    by (simp add: e_def late_cancel_env_def site_env_def quiet_env_def
          download_media_as_bytes_def image_response_def)
  have "process_media_scraper e 1 [''http://s/p1'', ''http://s/p3''] fresh_world =
     (Completed,
      \<lparr>ledger = {''http://h/a.jpg''},
       events =
         [Status (Processing 1 2 ''http://s/p1''), PageFetch ''http://s/p1'',
          Download ''http://h/a.jpg'' (Some ''http://s/p1'') True,
          Send 0 one_photo Delivered, Sleep 2, Sleep 10,
          Status ScrapingComplete, Sleep 3],
       polls = 3, sends = 1\<rparr>)"
    by (simp add: process_media_scraper_def with_scheme_def lists world got fresh_world_def
          one_photo_def delivery_defs startswith_def endswith_def lower_def lower_char_ascii)
  then show ?thesis by (simp add: e_def)
qed


section \<open>Redelivery\<close>

lemma overlap_jpg_lists:
  "extract_media_from_page (overlap_env ''http://h/a.jpg'') ''http://s/p''
     = (\<lparr>images = [''http://h/a.jpg''], videos = [''http://h/a.jpg''], gifs = []\<rparr>, None, None)"
  by (simp add: overlap_env_def quiet_env_def img_tag_def iframe_tag_def extraction_defs
        string_ops)

text \<open>
  Claim C5. Once a URL is in the ledger it stays there (the lemma \<open>ledger_only_grows\<close>),
  and it is said never to be downloaded or sent again. The ledger filter of a page is
  computed once, before the page's images and videos are delivered: a URL that is both an
  image of the page and the result of one of its embedded players passes the filter in
  both lists, is downloaded and sent as a photo, marked, and then downloaded and sent
  again as a video.
\<close>

theorem same_url_delivered_twice:
  "process_media_scraper (overlap_env ''http://h/a.jpg'') 1 [''http://s/p''] fresh_world =
     (Completed,
      \<lparr>ledger = {''http://h/a.jpg''},
       events =
         [Status (Processing 1 1 ''http://s/p''), PageFetch ''http://s/p'',
          Download ''http://h/a.jpg'' (Some ''http://s/p'') True,
          Send 0 one_photo Delivered, Sleep 2,
          Download ''http://h/a.jpg'' (Some ''http://s/p'') True,
          Send 0 (video_kwargs (overlap_env ''http://h/a.jpg'') ''http://h/a.jpg''
                    \<lparr>buf_content = ''IMG'', buf_pos = 0\<rparr>) Delivered, Sleep 2,
          Status ScrapingComplete, Sleep 3],
       polls = 3, sends = 2\<rparr>)"
proof -
  define e where "e = overlap_env ''http://h/a.jpg''"
  have lists: "extract_media_from_page e ''http://s/p''
     = (\<lparr>images = [''http://h/a.jpg''], videos = [''http://h/a.jpg''], gifs = []\<rparr>, None, None)"
    unfolding e_def by (rule overlap_jpg_lists)
  have world: "cancel_flag e = (\<lambda>c n. False)" "channel e = (\<lambda>n. (Delivered, 0))"
    "urlpath e = (\<lambda>u. u)"
    by (simp_all add: e_def overlap_env_def quiet_env_def)
  have got: "download_media_as_bytes e ''http://h/a.jpg'' (Some ''http://s/p'')
     = Some \<lparr>buf_content = ''IMG'', buf_pos = 0\<rparr>"
    by (simp add: e_def overlap_env_def quiet_env_def download_media_as_bytes_def
          image_response_def)
  have "process_media_scraper e 1 [''http://s/p''] fresh_world =
     (Completed,
      \<lparr>ledger = {''http://h/a.jpg''},
       events =
         [Status (Processing 1 1 ''http://s/p''), PageFetch ''http://s/p'',
          Download ''http://h/a.jpg'' (Some ''http://s/p'') True,
          Send 0 one_photo Delivered, Sleep 2,
          Download ''http://h/a.jpg'' (Some ''http://s/p'') True,
          Send 0 (video_kwargs e ''http://h/a.jpg''
                    \<lparr>buf_content = ''IMG'', buf_pos = 0\<rparr>) Delivered, Sleep 2,
          Status ScrapingComplete, Sleep 3],
       polls = 3, sends = 2\<rparr>)"
    by (simp add: process_media_scraper_def with_scheme_def lists world got fresh_world_def
          one_photo_def delivery_defs startswith_def endswith_def lower_def lower_char_ascii
          basename_def)
  then show ?thesis by (simp add: e_def)
qed


section \<open>The gif list\<close>

lemma overlap_gif_lists:
  "extract_media_from_page (overlap_env ''http://h/b.gif'') ''http://s/p''
     = (\<lparr>images = [], videos = [''http://h/b.gif''], gifs = [''http://h/b.gif'']\<rparr>, None, None)"
  by (simp add: overlap_env_def quiet_env_def img_tag_def iframe_tag_def extraction_defs
        string_ops)

text \<open>
  Claim C9, as the specification states it: no gif URL is ever downloaded, sent or added
  to the ledger. On a page whose image tag points to a gif and whose embedded player
  yields the same URL, the URL is in the gif list and in the video list of the page, and
  the job downloads it, sends it as a video and adds it to the ledger.
\<close>

theorem gif_delivered_as_video:
  "gifs (fst (extract_media_from_page (overlap_env ''http://h/b.gif'') ''http://s/p''))
     = [''http://h/b.gif''] \<and>
   process_media_scraper (overlap_env ''http://h/b.gif'') 1 [''http://s/p''] fresh_world =
     (Completed,
      \<lparr>ledger = {''http://h/b.gif''},
       events =
         [Status (Processing 1 1 ''http://s/p''), PageFetch ''http://s/p'',
          Download ''http://h/b.gif'' (Some ''http://s/p'') True,
          Send 0 (video_kwargs (overlap_env ''http://h/b.gif'') ''http://h/b.gif''
                    \<lparr>buf_content = ''IMG'', buf_pos = 0\<rparr>) Delivered, Sleep 2,
          Status ScrapingComplete, Sleep 3],
       polls = 2, sends = 1\<rparr>)"
proof -
  define e where "e = overlap_env ''http://h/b.gif''"
  have lists: "extract_media_from_page e ''http://s/p''
     = (\<lparr>images = [], videos = [''http://h/b.gif''], gifs = [''http://h/b.gif'']\<rparr>, None, None)"
    unfolding e_def by (rule overlap_gif_lists)
  have world: "cancel_flag e = (\<lambda>c n. False)" "channel e = (\<lambda>n. (Delivered, 0))"
    "urlpath e = (\<lambda>u. u)"
    by (simp_all add: e_def overlap_env_def quiet_env_def)
  have got: "download_media_as_bytes e ''http://h/b.gif'' (Some ''http://s/p'')
     = Some \<lparr>buf_content = ''IMG'', buf_pos = 0\<rparr>"
    by (simp add: e_def overlap_env_def quiet_env_def download_media_as_bytes_def
          image_response_def)
  have "process_media_scraper e 1 [''http://s/p''] fresh_world =
     (Completed,
      \<lparr>ledger = {''http://h/b.gif''},
       events =
         [Status (Processing 1 1 ''http://s/p''), PageFetch ''http://s/p'',
          Download ''http://h/b.gif'' (Some ''http://s/p'') True,
          Send 0 (video_kwargs e ''http://h/b.gif''
                    \<lparr>buf_content = ''IMG'', buf_pos = 0\<rparr>) Delivered, Sleep 2,
          Status ScrapingComplete, Sleep 3],
       polls = 2, sends = 1\<rparr>)"
    by (simp add: process_media_scraper_def with_scheme_def lists world got fresh_world_def
          delivery_defs startswith_def basename_def)
  with lists show ?thesis by (simp add: e_def)
qed

text \<open>
  Claim C9, amended. Gif references are extracted, deduplicated and capped at 10 in the
  per-page result, and the gif list is never handed to delivery: every URL whose download
  a job requests, every byte string it sends and every URL it adds to the ledger belongs
  to (or is what is fetched from) the image list or the video list of one of its pages.
  A URL of a gif list is delivered only when it is also in such a list.
\<close>

theorem gif_list_not_delivered:
  "gifs (fst (extract_media_from_page e page_url))
     = take 10 (first_seen (found e page_url Gif)) \<and>
   distinct (gifs (fst (extract_media_from_page e page_url))) \<and>
   length (gifs (fst (extract_media_from_page e page_url))) \<le> 10 \<and>
   set (download_requests (events (snd (process_media_scraper e chat urls w))))
     \<subseteq> set (download_requests (events w))
       \<union> (\<Union>u \<in> set urls. deliverable e (with_scheme u)) \<and>
   set (sent_contents (events (snd (process_media_scraper e chat urls w))))
     \<subseteq> set (sent_contents (events w))
       \<union> fetched e (\<Union>u \<in> set urls. deliverable e (with_scheme u)) \<and>
   ledger (snd (process_media_scraper e chat urls w))
     \<subseteq> ledger w \<union> (\<Union>u \<in> set urls. deliverable e (with_scheme u))"
proof -
  have gif: "gifs (fst (extract_media_from_page e page_url))
       = take 10 (first_seen (found e page_url Gif))"
    using collect_media_found [of e page_url]
    by (simp add: extract_media_from_page_def case_prod_unfold)
  obtain k where job:
    "ledger (snd (scrape_loop e chat (length urls) 0 urls w))
       \<subseteq> ledger w \<union> (\<Union>u \<in> set urls. deliverable e (with_scheme u))"
    "set (download_requests (events (snd (scrape_loop e chat (length urls) 0 urls w))))
       \<subseteq> set (download_requests (events w))
         \<union> (\<Union>u \<in> set urls. deliverable e (with_scheme u))"
    "set (sent_contents (events (snd (scrape_loop e chat (length urls) 0 urls w))))
       \<subseteq> set (sent_contents (events w))
         \<union> fetched e (\<Union>u \<in> set urls. deliverable e (with_scheme u))"
    using scrape_loop_pages [of w e chat "length urls" 0 urls] by blast
  show ?thesis
    using gif job process_media_scraper_world [of e chat urls w] by simp
qed

end
